theory Spec2Isabelle
  imports Complex_Main "HOL-Library.Log_Nat"
begin

section \<open>Numbers, matrices, errors\<close>

text \<open>
  The library computes on JavaScript numbers, which are doubles. The matrix operations
  are modelled on the reals: every arithmetic step is exact there, so what is proved of
  them in general is proved for exact arithmetic, and the concrete runs below use
  powers of two, on which the doubles compute the same values. The angle between two
  vectors is modelled a second time on doubles, with rounding, infinities and NaN,
  because its statement is about rounding. A matrix is an
  array of rows, a vector an array of numbers. The \<open>Matrix\<close> type of the source promises
  nothing about the shape; the data model asks for at least one row and rows of one length,
  which is what \<open>isValidMatrix\<close> tests. Reads stay inside the arrays on such matrices.
\<close>

type_synonym vector = "real list"
type_synonym matrix = "real list list"

datatype error =
    TypeError
  | DimensionMismatch
  | NotSquare
  | Singular
  | DegenerateInput
  | Unsupported
  | InvalidPower
  | UnknownFunction

text \<open>
  The literal \<open>1e-10\<close> of the source is a double: the one nearest to \<open>10\<^sup>-\<^sup>1\<^sup>0\<close>, which is
  \<open>7737125245533627 / 2\<^sup>8\<^sup>6\<close> and a little above the decimal value. The tolerance tests
  compare with this number.
\<close>

definition tol :: real where
  "tol = 7737125245533627 / 2 ^ 86"

definition createMatrix :: "nat \<Rightarrow> nat \<Rightarrow> real \<Rightarrow> matrix" where
  "createMatrix rows cols fill = replicate rows (replicate cols fill)"

definition isValidMatrix :: "matrix \<Rightarrow> bool" where
  "isValidMatrix m = (m \<noteq> [] \<and> list_all (\<lambda>row. length row = length (m ! 0)) m)"

section \<open>Numeric primitives\<close>

text \<open>
  \<open>addMatrices\<close> and \<open>subtractMatrices\<close> compare the row counts and the lengths of the first
  rows; reading \<open>a[0].length\<close> on an array without rows throws a TypeError.
\<close>

definition addMatrices :: "matrix \<Rightarrow> matrix \<Rightarrow> error + matrix" where
  "addMatrices a b =
     (if length a \<noteq> length b then Inl DimensionMismatch
      else if a = [] then Inl TypeError
      else if length (a ! 0) \<noteq> length (b ! 0) then Inl DimensionMismatch
      else Inr (map (\<lambda>i. map (\<lambda>j. a ! i ! j + b ! i ! j) [0..<length (a ! i)]) [0..<length a]))"

definition subtractMatrices :: "matrix \<Rightarrow> matrix \<Rightarrow> error + matrix" where
  "subtractMatrices a b =
     (if length a \<noteq> length b then Inl DimensionMismatch
      else if a = [] then Inl TypeError
      else if length (a ! 0) \<noteq> length (b ! 0) then Inl DimensionMismatch
      else Inr (map (\<lambda>i. map (\<lambda>j. a ! i ! j - b ! i ! j) [0..<length (a ! i)]) [0..<length a]))"

text \<open>
  The triple loop of \<open>multiplyMatrices\<close>: entry \<open>(i, j)\<close> starts at 0 and accumulates
  \<open>a[i][k] * b[k][j]\<close> for \<open>k\<close> from 0 to \<open>a[0].length - 1\<close>.
\<close>

definition multiplyMatrices :: "matrix \<Rightarrow> matrix \<Rightarrow> error + matrix" where
  "multiplyMatrices a b =
     (if a = [] then Inl TypeError
      else if length (a ! 0) \<noteq> length b then Inl DimensionMismatch
      else if b = [] then Inl TypeError
      else Inr (map (\<lambda>i. map (\<lambda>j. foldl (\<lambda>s k. s + a ! i ! k * b ! k ! j) 0 [0..<length (a ! 0)])
                              [0..<length (b ! 0)])
                [0..<length a]))"

definition scalarMultiply :: "matrix \<Rightarrow> real \<Rightarrow> matrix" where
  "scalarMultiply m scalar = map (\<lambda>row. map (\<lambda>val. val * scalar) row) m"

definition transpose_mat :: "matrix \<Rightarrow> error + matrix" where
  "transpose_mat m =
     (if m = [] then Inl TypeError
      else Inr (map (\<lambda>colIndex. map (\<lambda>row. row ! colIndex) m) [0..<length (m ! 0)]))"

section \<open>Determinant and inverse\<close>

text \<open>
  \<open>matrix.slice(1).map(row => row.filter((_, j) => j !== i))\<close>: the minor without row 0
  and column \<open>i\<close>.
\<close>

definition minor :: "matrix \<Rightarrow> nat \<Rightarrow> matrix" where
  "minor m i = map (\<lambda>row. map (\<lambda>j. row ! j) (filter (\<lambda>j. j \<noteq> i) [0..<length row])) (tl m)"

text \<open>
  The recursive cofactor expansion along the first row. Every call repeats the test for a
  square matrix, and an error of a recursive call ends the loop, as the exception does.
\<close>

function determinant :: "matrix \<Rightarrow> error + real" where
  "determinant m =
     (if m = [] then Inl TypeError
      else if length m \<noteq> length (m ! 0) then Inl NotSquare
      else if length m = 1 then Inr (m ! 0 ! 0)
      else if length m = 2 then Inr (m ! 0 ! 0 * m ! 1 ! 1 - m ! 0 ! 1 * m ! 1 ! 0)
      else foldl (\<lambda>det i. case det of
                     Inl e \<Rightarrow> Inl e
                   | Inr d \<Rightarrow> (case determinant (minor m i) of
                                Inl e \<Rightarrow> Inl e
                              | Inr sub \<Rightarrow> Inr (d + m ! 0 ! i * (- 1) ^ i * sub)))
                 (Inr 0) [0..<length m])"
  by pat_completeness auto
termination
  by (relation "measure length") (auto simp: minor_def)

declare determinant.simps [simp del]

section \<open>Row operations\<close>

text \<open>
  The pivot search shared by \<open>rref\<close>, \<open>gaussJordan\<close> and the traced generators: starting
  from \<open>start\<close>, a later row replaces the candidate only when its entry is strictly larger
  in magnitude.
\<close>

definition find_max_row :: "matrix \<Rightarrow> nat \<Rightarrow> nat \<Rightarrow> nat \<Rightarrow> nat" where
  "find_max_row result col start rows =
     foldl (\<lambda>maxRow i. if \<bar>result ! i ! col\<bar> > \<bar>result ! maxRow ! col\<bar> then i else maxRow)
           start [Suc start..<rows]"

text \<open>
  \<open>[result[p], result[q]] = [result[q], result[p]]\<close> exchanges two row references of the
  outer array.
\<close>

definition swap_rows :: "matrix \<Rightarrow> nat \<Rightarrow> nat \<Rightarrow> matrix" where
  "swap_rows result p q = (result[p := result ! q])[q := result ! p]"

text \<open>\<open>for (j = 0; j < cols; j++) row[j] /= pivot\<close>, with \<open>pivot\<close> read before the loop.\<close>

definition scale_row :: "real list \<Rightarrow> real \<Rightarrow> nat \<Rightarrow> real list" where
  "scale_row row pivot cols = foldl (\<lambda>r j. r[j := r ! j / pivot]) row [0..<cols]"

text \<open>\<open>for (j = 0; j < cols; j++) row[j] -= factor * prow[j]\<close>, on two different rows.\<close>

definition subtract_row :: "real list \<Rightarrow> real \<Rightarrow> real list \<Rightarrow> nat \<Rightarrow> real list" where
  "subtract_row row factor prow cols =
     foldl (\<lambda>r j. r[j := r ! j - factor * prow ! j]) row [0..<cols]"

text \<open>The elimination loop of \<open>rref\<close>: rows whose entry is within the tolerance are left.\<close>

definition eliminate_column :: "matrix \<Rightarrow> nat \<Rightarrow> nat \<Rightarrow> nat \<Rightarrow> nat \<Rightarrow> matrix" where
  "eliminate_column result pivotRow col rows cols =
     foldl (\<lambda>res i. if i \<noteq> pivotRow \<and> \<bar>res ! i ! col\<bar> > tol
                     then res[i := subtract_row (res ! i) (res ! i ! col) (res ! pivotRow) cols]
                     else res)
           result [0..<rows]"

section \<open>Row-reduction engine\<close>

text \<open>
  The column loop of \<open>rref\<close>, \<open>for (col = 0; col < cols && pivotRow < rows; col++)\<close>, as a
  recursion on the loop state \<open>(col, pivotRow, result)\<close>.
\<close>

function rref_loop :: "nat \<Rightarrow> nat \<Rightarrow> nat \<Rightarrow> nat \<Rightarrow> matrix \<Rightarrow> matrix" where
  "rref_loop rows cols col pivotRow result =
     (if col < cols \<and> pivotRow < rows then
        let maxRow = find_max_row result col pivotRow rows in
        if \<bar>result ! maxRow ! col\<bar> < tol then rref_loop rows cols (Suc col) pivotRow result
        else
          let swapped = swap_rows result pivotRow maxRow;
              pivot = swapped ! pivotRow ! col;
              scaled = swapped[pivotRow := scale_row (swapped ! pivotRow) pivot cols];
              eliminated = eliminate_column scaled pivotRow col rows cols
          in rref_loop rows cols (Suc col) (Suc pivotRow) eliminated
      else result)"
  by pat_completeness auto
termination
  by (relation "measure (\<lambda>(rows, cols, col, pivotRow, result). cols - col)") auto

declare rref_loop.simps [simp del]

definition rref :: "matrix \<Rightarrow> error + matrix" where
  "rref m = (if m = [] then Inl TypeError
             else Inr (rref_loop (length m) (length (m ! 0)) 0 0 m))"

definition rank :: "matrix \<Rightarrow> error + nat" where
  "rank m = (case rref m of
               Inl e \<Rightarrow> Inl e
             | Inr rrefMatrix \<Rightarrow>
                 Inr (length (filter (\<lambda>row. list_ex (\<lambda>val. \<bar>val\<bar> > tol) row) rrefMatrix)))"

section \<open>Gauss-Jordan inverse\<close>

text \<open>
  The elimination loop of \<open>gaussJordan\<close> subtracts from every other row, without a
  tolerance test.
\<close>

definition eliminate_column_all :: "matrix \<Rightarrow> nat \<Rightarrow> nat \<Rightarrow> nat \<Rightarrow> matrix" where
  "eliminate_column_all result i rows cols =
     foldl (\<lambda>res k. if k \<noteq> i
                     then res[k := subtract_row (res ! k) (res ! k ! i) (res ! i) cols]
                     else res)
           result [0..<rows]"

text \<open>
  One pass of the loop body of \<open>gaussJordan\<close> for column \<open>i\<close>. The rows are exchanged first;
  when the pivot is below the tolerance the body ends there (\<open>continue\<close>) and the loop goes
  on with the next column.
\<close>

definition gaussJordan_step :: "nat \<Rightarrow> nat \<Rightarrow> matrix \<Rightarrow> nat \<Rightarrow> matrix" where
  "gaussJordan_step rows cols result i =
     (let maxRow = find_max_row result i i rows;
          swapped = swap_rows result i maxRow;
          pivot = swapped ! i ! i
      in if \<bar>pivot\<bar> < tol then swapped
         else eliminate_column_all (swapped[i := scale_row (swapped ! i) pivot cols]) i rows cols)"

definition gaussJordan :: "matrix \<Rightarrow> error + matrix" where
  "gaussJordan m =
     (if m = [] then Inl TypeError
      else Inr (foldl (gaussJordan_step (length m) (length (m ! 0))) m
                      [0..<min (length m) (length (m ! 0))]))"

definition augment_identity :: "matrix \<Rightarrow> matrix" where
  "augment_identity m =
     map (\<lambda>i. m ! i @ map (\<lambda>j. if i = j then 1 else 0) [0..<length m]) [0..<length m]"

definition inverse_mat :: "matrix \<Rightarrow> error + matrix" where
  "inverse_mat m =
     (if m = [] then Inl TypeError
      else if length m \<noteq> length (m ! 0) then Inl NotSquare
      else case determinant m of
             Inl e \<Rightarrow> Inl e
           | Inr det \<Rightarrow>
               if \<bar>det\<bar> < tol then Inl Singular
               else if length m = 2 then
                 Inr [[m ! 1 ! 1 / det, - (m ! 0 ! 1) / det],
                      [- (m ! 1 ! 0) / det, m ! 0 ! 0 / det]]
               else (case gaussJordan (augment_identity m) of
                       Inl e \<Rightarrow> Inl e
                     | Inr g \<Rightarrow> Inr (map (drop (length m)) (take (length m) g))))"

section \<open>Equation solver, RREF method\<close>

text \<open>
  A \<open>Solution\<close> carries its type tag, the solution vector when there is one, a message and
  the list of textual steps. The texts are templates; the model keeps which template it is
  and the numbers put into it. The difference \<open>n - pivotCount\<close> is a JavaScript number
  and can be negative, so it is an integer here.
\<close>

datatype solution_type = Unique | Infinite | NoSolution

datatype solver_text =
    MethodRREF
  | CreateAugmented nat nat
  | ApplyRowOperations
  | RowIndicatesInconsistency nat real
  | SystemInconsistent
  | FoundPivots nat nat
  | PivotsEqualVariables
  | SolutionIs vector
  | PivotsFewerThanVariables
  | FreeVariables int
  | ExpressInFreeVariables
  | NoSolutionExists
  | UniqueSolutionFound
  | InfiniteSolutionsExist int

record solution =
  sol_type :: solution_type
  sol_solution :: "vector option"
  sol_message :: solver_text
  sol_steps :: "solver_text list"

text \<open>
  The rows whose coefficient part is below the tolerance throughout while the augmented
  entry is above it, in row order. The solver's scan returns at the first of them.
\<close>

definition inconsistent_rows :: "matrix \<Rightarrow> nat \<Rightarrow> nat list" where
  "inconsistent_rows rrefMatrix n =
     filter (\<lambda>i. list_all (\<lambda>val. \<bar>val\<bar> < tol) (take n (rrefMatrix ! i))
                 \<and> \<bar>rrefMatrix ! i ! n\<bar> > tol)
            [0..<length rrefMatrix]"

text \<open>
  The pivot scan: each row contributes the first column \<open>j < n\<close> whose entry is above the
  tolerance, in row order. \<open>pivotCount\<close> is the length of this list.
\<close>

definition row_pivot :: "real list \<Rightarrow> nat \<Rightarrow> nat option" where
  "row_pivot row n =
     (case filter (\<lambda>j. \<bar>row ! j\<bar> > tol) [0..<n] of [] \<Rightarrow> None | j # _ \<Rightarrow> Some j)"

definition pivot_columns :: "matrix \<Rightarrow> nat \<Rightarrow> nat list" where
  "pivot_columns rrefMatrix n =
     concat (map (\<lambda>i. case row_pivot (rrefMatrix ! i) n of None \<Rightarrow> [] | Some j \<Rightarrow> [j])
                 [0..<length rrefMatrix])"

text \<open>\<open>for (i = 0; i < pivotCount; i++) solution[pivotCols[i]] = rrefMatrix[i][n]\<close>.\<close>

definition reconstruct :: "matrix \<Rightarrow> nat \<Rightarrow> nat list \<Rightarrow> vector" where
  "reconstruct rrefMatrix n pivotCols =
     foldl (\<lambda>sol i. sol[pivotCols ! i := rrefMatrix ! i ! n]) (replicate n 0)
           [0..<length pivotCols]"

definition solveByRREF :: "matrix \<Rightarrow> vector \<Rightarrow> solver_text list \<Rightarrow> error + solution" where
  "solveByRREF A b steps =
     (let steps1 = steps @ [MethodRREF];
          augmented = map (\<lambda>i. A ! i @ [b ! i]) [0..<length A]
      in if augmented = [] then Inl TypeError
         else
           let steps2 = steps1 @ [CreateAugmented (length augmented) (length (augmented ! 0))]
           in case rref augmented of
                Inl e \<Rightarrow> Inl e
              | Inr rrefMatrix \<Rightarrow>
                  let steps3 = steps2 @ [ApplyRowOperations];
                      n = length (rrefMatrix ! 0) - 1
                  in case inconsistent_rows rrefMatrix n of
                       i # _ \<Rightarrow>
                         Inr \<lparr>sol_type = NoSolution, sol_solution = None,
                              sol_message = NoSolutionExists,
                              sol_steps = steps3 @ [RowIndicatesInconsistency (i + 1)
                                                      (rrefMatrix ! i ! n),
                                                    SystemInconsistent]\<rparr>
                     | [] \<Rightarrow>
                         let pivotCols = pivot_columns rrefMatrix n;
                             pivotCount = length pivotCols;
                             steps4 = steps3 @ [FoundPivots pivotCount n]
                         in if pivotCount = n then
                              let solution = reconstruct rrefMatrix n pivotCols
                              in Inr \<lparr>sol_type = Unique, sol_solution = Some solution,
                                      sol_message = UniqueSolutionFound,
                                      sol_steps = steps4 @ [PivotsEqualVariables,
                                                            SolutionIs solution]\<rparr>
                            else
                              Inr \<lparr>sol_type = Infinite, sol_solution = None,
                                   sol_message = InfiniteSolutionsExist (int n - int pivotCount),
                                   sol_steps = steps4 @ [PivotsFewerThanVariables,
                                                         FreeVariables (int n - int pivotCount),
                                                         ExpressInFreeVariables]\<rparr>)"

section \<open>Matrix functions\<close>

text \<open>\<open>createMatrix(n, n, 0)\<close> followed by \<open>identity[i][i] = 1\<close> for each \<open>i\<close>.\<close>

definition identity_matrix :: "nat \<Rightarrow> matrix" where
  "identity_matrix n = foldl (\<lambda>m i. m[i := (m ! i)[i := 1]]) (createMatrix n n 0) [0..<n]"

text \<open>
  \<open>matrixPower\<close>: the loop \<open>for (i = 1; i < power; i++) result = multiplyMatrices(result, A)\<close>
  runs \<open>power - 1\<close> times; an exception of \<open>multiplyMatrices\<close> ends it.
\<close>

definition matrixPower :: "matrix \<Rightarrow> int \<Rightarrow> error + matrix" where
  "matrixPower A pow =
     (if pow = 0 then Inr (identity_matrix (length A))
      else if pow = 1 then Inr A
      else foldl (\<lambda>result i. case result of Inl e \<Rightarrow> Inl e | Inr r \<Rightarrow> multiplyMatrices r A)
                 (Inr A) [1..<nat pow])"

text \<open>
  What the loop of \<open>matrixPower\<close> has computed after \<open>k\<close> rounds, as a recursion on \<open>k\<close>:
  it starts from \<open>A\<close> and multiplies by \<open>A\<close> on the right each round.
\<close>

fun repeated_product :: "matrix \<Rightarrow> nat \<Rightarrow> error + matrix" where
  "repeated_product A 0 = Inr A"
| "repeated_product A (Suc k) =
     (case repeated_product A k of Inl e \<Rightarrow> Inl e | Inr r \<Rightarrow> multiplyMatrices r A)"

text \<open>
  The Taylor sums of \<open>matrixExponential\<close>, \<open>matrixSine\<close> and \<open>matrixCosine\<close>. Each pass
  multiplies the running term by \<open>A\<close> (once or twice), scales it and adds it to the result;
  the running product \<open>factorial\<close> of the source is the factorial written here.
\<close>

definition series_term ::
  "(matrix \<Rightarrow> error + matrix) \<Rightarrow> (nat \<Rightarrow> real) \<Rightarrow>
   error + (matrix \<times> matrix) \<Rightarrow> nat \<Rightarrow> error + (matrix \<times> matrix)" where
  "series_term next_term coeff state k =
     (case state of
        Inl e \<Rightarrow> Inl e
      | Inr (result, term) \<Rightarrow>
          (case next_term term of
             Inl e \<Rightarrow> Inl e
           | Inr term' \<Rightarrow>
               (case addMatrices result (scalarMultiply term' (coeff k)) of
                  Inl e \<Rightarrow> Inl e
                | Inr result' \<Rightarrow> Inr (result', term'))))"

definition times_A_twice :: "matrix \<Rightarrow> matrix \<Rightarrow> error + matrix" where
  "times_A_twice A term =
     (case multiplyMatrices term A of Inl e \<Rightarrow> Inl e | Inr t \<Rightarrow> multiplyMatrices t A)"

definition matrixExponential :: "matrix \<Rightarrow> error + matrix" where
  "matrixExponential A =
     map_sum id fst
       (foldl (series_term (\<lambda>term. multiplyMatrices term A) (\<lambda>k. 1 / real (fact k)))
              (Inr (identity_matrix (length A), identity_matrix (length A))) [1..<11])"

definition matrixSine :: "matrix \<Rightarrow> error + matrix" where
  "matrixSine A =
     map_sum id fst
       (foldl (series_term (times_A_twice A) (\<lambda>k. (- 1) ^ k / real (fact (2 * k + 1))))
              (Inr (A, A)) [1..<5])"

definition matrixCosine :: "matrix \<Rightarrow> error + matrix" where
  "matrixCosine A =
     map_sum id fst
       (foldl (series_term (times_A_twice A) (\<lambda>k. (- 1) ^ k / real (fact (2 * k))))
              (Inr (identity_matrix (length A), identity_matrix (length A))) [1..<5])"

text \<open>
  \<open>calculateMatrixFunction(A, func, power?)\<close>. The optional \<open>power\<close> is \<open>None\<close> when the
  caller leaves it out. The guard of the \<open>'power'\<close> case is \<open>!power || power < 0\<close>, and
  \<open>!power\<close> holds for an absent argument and for 0.
\<close>

definition calculateMatrixFunction :: "matrix \<Rightarrow> string \<Rightarrow> int option \<Rightarrow> error + matrix" where
  "calculateMatrixFunction A func pow =
     (if A = [] then Inl TypeError
      else if length A \<noteq> length (A ! 0) then Inl NotSquare
      else if func = ''power'' then
        (case pow of
           None \<Rightarrow> Inl InvalidPower
         | Some p \<Rightarrow> if p = 0 \<or> p < 0 then Inl InvalidPower else matrixPower A p)
      else if func = ''exp'' then matrixExponential A
      else if func = ''sin'' then matrixSine A
      else if func = ''cos'' then matrixCosine A
      else Inl UnknownFunction)"

section \<open>Vector module\<close>

text \<open>
  The vector operations in exact arithmetic. They serve the statements about the store,
  where the values do not matter. What depends on rounding, underflow and overflow is
  stated of the operations on doubles in the next section.
\<close>

definition dotProduct :: "vector \<Rightarrow> vector \<Rightarrow> error + real" where
  "dotProduct a b =
     (if length a \<noteq> length b then Inl DimensionMismatch
      else Inr (foldl (\<lambda>sum i. sum + a ! i * b ! i) 0 [0..<length a]))"

definition crossProduct :: "vector \<Rightarrow> vector \<Rightarrow> error + vector" where
  "crossProduct a b =
     (if length a \<noteq> 3 \<or> length b \<noteq> 3 then Inl Unsupported
      else Inr [a ! 1 * b ! 2 - a ! 2 * b ! 1,
                a ! 2 * b ! 0 - a ! 0 * b ! 2,
                a ! 0 * b ! 1 - a ! 1 * b ! 0])"

definition vectorMagnitude :: "vector \<Rightarrow> real" where
  "vectorMagnitude v = sqrt (foldl (\<lambda>sum val. sum + val * val) 0 v)"

definition normalizeVector :: "vector \<Rightarrow> error + vector" where
  "normalizeVector v =
     (let magnitude = vectorMagnitude v
      in if magnitude = 0 then Inl DegenerateInput
         else Inr (map (\<lambda>val. val / magnitude) v))"

text \<open>\<open>Math.max(-1, Math.min(1, q))\<close>, the argument handed to \<open>Math.acos\<close>.\<close>

definition clamp_cosine :: "real \<Rightarrow> real" where
  "clamp_cosine q = max (- 1) (min 1 q)"

definition angleBetweenVectors :: "vector \<Rightarrow> vector \<Rightarrow> error + real" where
  "angleBetweenVectors a b =
     (case dotProduct a b of
        Inl e \<Rightarrow> Inl e
      | Inr dot \<Rightarrow>
          let magA = vectorMagnitude a; magB = vectorMagnitude b
          in if magA = 0 \<or> magB = 0 then Inl DegenerateInput
             else Inr (arccos (clamp_cosine (dot / (magA * magB)))))"

section \<open>The vector angle on doubles\<close>

text \<open>
  A double is a finite number, the negative zero, an infinity or NaN. \<open>Fin 0\<close> is the
  positive zero. The finite doubles are not carved out as a type: an operation rounds
  its exact result, and what is proved holds for whatever numbers the vectors hold.
\<close>

datatype double = Fin real | NegZero | PosInf | NegInf | NaN

text \<open>
  Rounding to the nearest double, ties to the even significand. \<open>expo x\<close> is the
  binary exponent of \<open>x\<close>, the \<open>e\<close> with \<open>2\<^sup>e \<le> |x| < 2\<^sup>e\<^sup>+\<^sup>1\<close>; \<open>ulp x\<close> is the spacing of the
  doubles around \<open>x\<close>, with 53 significant bits and the least exponent \<open>-1022\<close>. A result
  of magnitude \<open>2\<^sup>1\<^sup>0\<^sup>2\<^sup>4\<close> or more is an infinity. A zero result has the sign of the exact
  value, and the sign the operation prescribes when the exact value is zero.
\<close>

definition expo :: "real \<Rightarrow> int" where
  "expo x = (if 1 \<le> \<bar>x\<bar> then bitlen \<lfloor>\<bar>x\<bar>\<rfloor> - 1 else - bitlen (\<lceil>1 / \<bar>x\<bar>\<rceil> - 1))"

definition ulp :: "real \<Rightarrow> real" where
  "ulp x = 2 powi (max (expo x) (- 1022) - 52)"

definition round_even :: "real \<Rightarrow> int" where
  "round_even y =
     (let f = \<lfloor>y\<rfloor>
      in if y - of_int f < 1 / 2 then f
         else if 1 / 2 < y - of_int f then f + 1
         else if even f then f else f + 1)"

definition round_double :: "bool \<Rightarrow> real \<Rightarrow> double" where
  "round_double neg x =
     (if x = 0 then (if neg then NegZero else Fin 0)
      else
        let r = of_int (round_even (x / ulp x)) * ulp x
        in if 2 ^ 1024 \<le> \<bar>r\<bar> then (if 0 < x then PosInf else NegInf)
           else if r = 0 then (if x < 0 then NegZero else Fin 0)
           else Fin r)"

text \<open>
  The operations of the language on doubles: \<open>+\<close>, \<open>*\<close>, \<open>/\<close>, \<open>Math.sqrt\<close>, the comparison
  \<open><\<close>, \<open>Math.min\<close>, \<open>Math.max\<close> and \<open>Math.acos\<close>, each with its rules for zeros, infinities
  and NaN. \<open>Math.sqrt\<close> and \<open>Math.acos\<close> are taken as correctly rounded. \<open>is_zero\<close> is the
  test \<open>=== 0\<close>, which both zeros pass.
\<close>

fun sign_bit :: "double \<Rightarrow> bool" where
  "sign_bit (Fin x) = (x < 0)"
| "sign_bit NegZero = True"
| "sign_bit PosInf = False"
| "sign_bit NegInf = True"
| "sign_bit NaN = False"

fun is_finite :: "double \<Rightarrow> bool" where
  "is_finite (Fin x) = True"
| "is_finite NegZero = True"
| "is_finite d = False"

fun dval :: "double \<Rightarrow> real" where
  "dval (Fin x) = x"
| "dval d = 0"

definition is_zero :: "double \<Rightarrow> bool" where
  "is_zero d = (d = Fin 0 \<or> d = NegZero)"

definition dadd :: "double \<Rightarrow> double \<Rightarrow> double" where
  "dadd x y =
     (if x = NaN \<or> y = NaN then NaN
      else if is_finite x \<and> is_finite y
        then round_double (sign_bit x \<and> sign_bit y) (dval x + dval y)
      else if is_finite x then y
      else if is_finite y then x
      else if x = y then x
      else NaN)"

definition dmul :: "double \<Rightarrow> double \<Rightarrow> double" where
  "dmul x y =
     (if x = NaN \<or> y = NaN then NaN
      else if is_finite x \<and> is_finite y
        then round_double (sign_bit x \<noteq> sign_bit y) (dval x * dval y)
      else if is_zero x \<or> is_zero y then NaN
      else if sign_bit x \<noteq> sign_bit y then NegInf
      else PosInf)"

definition ddiv :: "double \<Rightarrow> double \<Rightarrow> double" where
  "ddiv x y =
     (if x = NaN \<or> y = NaN then NaN
      else if is_finite x \<and> is_finite y then
        (if is_zero y
         then (if is_zero x then NaN
               else if sign_bit x \<noteq> sign_bit y then NegInf else PosInf)
         else round_double (sign_bit x \<noteq> sign_bit y) (dval x / dval y))
      else if is_finite y then (if sign_bit x \<noteq> sign_bit y then NegInf else PosInf)
      else if is_finite x then (if sign_bit x \<noteq> sign_bit y then NegZero else Fin 0)
      else NaN)"

fun dsqrt :: "double \<Rightarrow> double" where
  "dsqrt (Fin x) = (if x < 0 then NaN else round_double False (sqrt x))"
| "dsqrt NegZero = NegZero"
| "dsqrt PosInf = PosInf"
| "dsqrt NegInf = NaN"
| "dsqrt NaN = NaN"

fun dless :: "double \<Rightarrow> double \<Rightarrow> bool" where
  "dless NaN y = False"
| "dless x NaN = False"
| "dless PosInf y = False"
| "dless x NegInf = False"
| "dless NegInf y = True"
| "dless x PosInf = True"
| "dless x y = (dval x < dval y)"

definition dmin :: "double \<Rightarrow> double \<Rightarrow> double" where
  "dmin x y =
     (if x = NaN \<or> y = NaN then NaN
      else if is_zero x \<and> is_zero y then (if x = NegZero \<or> y = NegZero then NegZero else Fin 0)
      else if dless y x then y else x)"

definition dmax :: "double \<Rightarrow> double \<Rightarrow> double" where
  "dmax x y =
     (if x = NaN \<or> y = NaN then NaN
      else if is_zero x \<and> is_zero y then (if x = Fin 0 \<or> y = Fin 0 then Fin 0 else NegZero)
      else if dless x y then y else x)"

fun dacos :: "double \<Rightarrow> double" where
  "dacos (Fin x) = (if x < - 1 \<or> 1 < x then NaN else round_double False (arccos x))"
| "dacos NegZero = round_double False (arccos 0)"
| "dacos d = NaN"

text \<open>
  \<open>dotProduct\<close>, \<open>vectorMagnitude\<close> and \<open>angleBetweenVectors\<close> on doubles, operation by
  operation as above; \<open>clamp_cosine_fp\<close> is \<open>Math.max(-1, Math.min(1, q))\<close>.
\<close>

definition dotProduct_fp :: "double list \<Rightarrow> double list \<Rightarrow> error + double" where
  "dotProduct_fp a b =
     (if length a \<noteq> length b then Inl DimensionMismatch
      else Inr (foldl (\<lambda>sum i. dadd sum (dmul (a ! i) (b ! i))) (Fin 0) [0..<length a]))"

definition vectorMagnitude_fp :: "double list \<Rightarrow> double" where
  "vectorMagnitude_fp v = dsqrt (foldl (\<lambda>sum val. dadd sum (dmul val val)) (Fin 0) v)"

definition clamp_cosine_fp :: "double \<Rightarrow> double" where
  "clamp_cosine_fp q = dmax (Fin (- 1)) (dmin (Fin 1) q)"

definition angleBetweenVectors_fp :: "double list \<Rightarrow> double list \<Rightarrow> error + double" where
  "angleBetweenVectors_fp a b =
     (case dotProduct_fp a b of
        Inl e \<Rightarrow> Inl e
      | Inr dot \<Rightarrow>
          let magA = vectorMagnitude_fp a; magB = vectorMagnitude_fp b
          in if is_zero magA \<or> is_zero magB then Inl DegenerateInput
             else Inr (dacos (clamp_cosine_fp (ddiv dot (dmul magA magB)))))"

section \<open>Step-trace generators\<close>

text \<open>
  An \<open>AnimationStep\<close> has an id, a description, a matrix, an optional operation label, an
  optional highlight and an explanation. Description, operation and explanation are
  templates filled with the same numbers; \<open>step_text\<close> names the template and carries the
  numbers (row and column numbers as printed, counted from 1). The matrix of a step is a
  copy (\<open>result.map(row => [...row])\<close>) in the Gaussian trace and a reference to the input
  or to the working matrix \<open>U\<close> in the LU trace.
\<close>

datatype step_text =
    StartingMatrix
  | RowSwap nat nat
  | ScaleRow nat real
  | EliminateRow nat real nat
  | RREFComplete
  | ErrorNotSquare
  | InitializeLU
  | WorkingOnColumn nat
  | ErrorZeroPivot
  | EliminateEntry nat nat real
  | LUComplete

record highlight =
  hl_row :: "nat option"
  hl_col :: "nat option"
  hl_element :: "(nat \<times> nat) option"

record 'm animation_step =
  step_id :: nat
  step_description :: step_text
  step_matrix :: 'm
  step_operation :: "step_text option"
  step_highlight :: "highlight option"

type_synonym gauss_state = "matrix \<times> matrix animation_step list \<times> nat"

text \<open>The elimination loop of the Gaussian trace: one step after each changed row.\<close>

definition trace_eliminate_column ::
  "nat \<Rightarrow> nat \<Rightarrow> nat \<Rightarrow> nat \<Rightarrow> gauss_state \<Rightarrow> gauss_state" where
  "trace_eliminate_column pivotRow col rows cols state =
     foldl (\<lambda>(res, steps, stepId) i.
              if i \<noteq> pivotRow \<and> \<bar>res ! i ! col\<bar> > tol then
                let factor = res ! i ! col;
                    res' = res[i := subtract_row (res ! i) factor (res ! pivotRow) cols]
                in (res',
                    steps @ [\<lparr>step_id = stepId,
                              step_description = EliminateRow (i + 1) factor (pivotRow + 1),
                              step_matrix = res',
                              step_operation = Some (EliminateRow (i + 1) factor (pivotRow + 1)),
                              step_highlight = Some \<lparr>hl_row = Some i, hl_col = Some col,
                                                     hl_element = None\<rparr>\<rparr>],
                    Suc stepId)
              else (res, steps, stepId))
           state [0..<rows]"

text \<open>
  The two guarded operations of the Gaussian trace: the rows are exchanged only when
  \<open>maxRow \<noteq> pivotRow\<close>, and the pivot row is divided only when the pivot is farther than
  the tolerance from 1. Each one records a step when it acts.
\<close>

definition trace_swap :: "nat \<Rightarrow> nat \<Rightarrow> gauss_state \<Rightarrow> gauss_state" where
  "trace_swap pivotRow maxRow state =
     (case state of (result, steps, stepId) \<Rightarrow>
        if maxRow \<noteq> pivotRow then
          let swapped = swap_rows result pivotRow maxRow
          in (swapped,
              steps @ [\<lparr>step_id = stepId,
                        step_description = RowSwap (pivotRow + 1) (maxRow + 1),
                        step_matrix = swapped,
                        step_operation = Some (RowSwap (pivotRow + 1) (maxRow + 1)),
                        step_highlight = Some \<lparr>hl_row = Some pivotRow, hl_col = None,
                                               hl_element = None\<rparr>\<rparr>],
              Suc stepId)
        else state)"

definition trace_scale :: "nat \<Rightarrow> nat \<Rightarrow> nat \<Rightarrow> gauss_state \<Rightarrow> gauss_state" where
  "trace_scale pivotRow col cols state =
     (case state of (result, steps, stepId) \<Rightarrow>
        let pivot = result ! pivotRow ! col
        in if \<bar>pivot - 1\<bar> > tol then
             let scaled = result[pivotRow := scale_row (result ! pivotRow) pivot cols]
             in (scaled,
                 steps @ [\<lparr>step_id = stepId,
                           step_description = ScaleRow (pivotRow + 1) pivot,
                           step_matrix = scaled,
                           step_operation = Some (ScaleRow (pivotRow + 1) pivot),
                           step_highlight = Some \<lparr>hl_row = Some pivotRow, hl_col = Some col,
                                                  hl_element = None\<rparr>\<rparr>],
                 Suc stepId)
           else state)"

text \<open>
  The column loop of \<open>generateGaussianSteps\<close>, on the state \<open>(result, steps, stepId)\<close>.
\<close>

function gaussian_loop :: "nat \<Rightarrow> nat \<Rightarrow> nat \<Rightarrow> nat \<Rightarrow> gauss_state \<Rightarrow> gauss_state" where
  "gaussian_loop rows cols col pivotRow state =
     (if col < cols \<and> pivotRow < rows then
        let maxRow = find_max_row (fst state) col pivotRow rows in
        if \<bar>fst state ! maxRow ! col\<bar> < tol
        then gaussian_loop rows cols (Suc col) pivotRow state
        else gaussian_loop rows cols (Suc col) (Suc pivotRow)
               (trace_eliminate_column pivotRow col rows cols
                  (trace_scale pivotRow col cols (trace_swap pivotRow maxRow state)))
      else state)"
  by pat_completeness auto
termination
  by (relation "measure (\<lambda>(rows, cols, col, pivotRow, state). cols - col)") auto

declare gaussian_loop.simps [simp del]

definition generateGaussianSteps :: "matrix \<Rightarrow> error + matrix animation_step list" where
  "generateGaussianSteps m =
     (if m = [] then Inl TypeError
      else
        let start = \<lparr>step_id = 0, step_description = StartingMatrix, step_matrix = m,
                     step_operation = None, step_highlight = None\<rparr>
        in case gaussian_loop (length m) (length (m ! 0)) 0 0 (m, [start], 1) of
             (result, steps, stepId) \<Rightarrow>
               Inr (steps @ [\<lparr>step_id = stepId, step_description = RREFComplete,
                               step_matrix = result, step_operation = None,
                               step_highlight = None\<rparr>]))"

text \<open>
  The LU trace. Its steps hold references: to the input matrix (\<open>matrix: matrix\<close>) or to
  the working matrix (\<open>matrix: U\<close>), which later passes go on changing. The loops build the
  steps with the reference; the generator's result shows each step with the matrix its
  reference holds when the generator returns.
\<close>

datatype matrix_ref = InputMatrix | WorkingU

record lu_state =
  lu_L :: matrix
  lu_U :: matrix
  lu_steps :: "matrix_ref animation_step list"
  lu_stepId :: nat

definition push_step ::
  "step_text \<Rightarrow> matrix_ref \<Rightarrow> highlight option \<Rightarrow> lu_state \<Rightarrow> lu_state" where
  "push_step text ref hl st =
     st\<lparr>lu_steps := lu_steps st @ [\<lparr>step_id = lu_stepId st, step_description = text,
                                     step_matrix = ref, step_operation = None,
                                     step_highlight = hl\<rparr>],
        lu_stepId := Suc (lu_stepId st)\<rparr>"

text \<open>
  The inner loop over the rows below the pivot. \<open>Inl\<close> is the early \<open>return steps\<close> after
  the zero-pivot step, \<open>Inr\<close> the state with which the outer loop goes on.
\<close>

function lu_inner :: "nat \<Rightarrow> nat \<Rightarrow> nat \<Rightarrow> lu_state \<Rightarrow> lu_state + lu_state" where
  "lu_inner n k i st =
     (if i < n then
        if \<bar>lu_U st ! k ! k\<bar> < tol
        then Inl (push_step ErrorZeroPivot WorkingU None st)
        else
          let U = lu_U st;
              factor = U ! i ! k / U ! k ! k;
              L' = (lu_L st)[i := (lu_L st ! i)[k := factor]];
              U' = U[i := foldl (\<lambda>r j. r[j := r ! j - factor * U ! k ! j]) (U ! i) [k..<n]]
          in lu_inner n k (Suc i)
               (push_step (EliminateEntry (i + 1) (k + 1) factor) WorkingU
                  (Some \<lparr>hl_row = None, hl_col = None, hl_element = Some (i, k)\<rparr>)
                  (st\<lparr>lu_L := L', lu_U := U'\<rparr>))
      else Inr st)"
  by pat_completeness auto
termination
  by (relation "measure (\<lambda>(n, k, i, st). n - i)") auto

declare lu_inner.simps [simp del]

function lu_outer :: "nat \<Rightarrow> nat \<Rightarrow> lu_state \<Rightarrow> lu_state + lu_state" where
  "lu_outer n k st =
     (if k < n - 1 then
        (case lu_inner n k (Suc k)
                (push_step (WorkingOnColumn (k + 1)) WorkingU
                   (Some \<lparr>hl_row = None, hl_col = Some k, hl_element = None\<rparr>) st) of
           Inl returned \<Rightarrow> Inl returned
         | Inr st' \<Rightarrow> lu_outer n (Suc k) st')
      else Inr st)"
  by pat_completeness auto
termination
  by (relation "measure (\<lambda>(n, k, st). n - k)") auto

declare lu_outer.simps [simp del]

definition resolve :: "matrix \<Rightarrow> matrix \<Rightarrow> matrix_ref animation_step \<Rightarrow> matrix animation_step" where
  "resolve input U s =
     \<lparr>step_id = step_id s, step_description = step_description s,
      step_matrix = (case step_matrix s of InputMatrix \<Rightarrow> input | WorkingU \<Rightarrow> U),
      step_operation = step_operation s, step_highlight = step_highlight s\<rparr>"

definition lu_init :: "matrix \<Rightarrow> lu_state" where
  "lu_init m =
     push_step InitializeLU InputMatrix None
       \<lparr>lu_L = identity_matrix (length m), lu_U = m, lu_steps = [], lu_stepId = 0\<rparr>"

definition generateLUSteps :: "matrix \<Rightarrow> error + matrix animation_step list" where
  "generateLUSteps m =
     (if m = [] then Inl TypeError
      else if length m \<noteq> length (m ! 0) then
        Inr [\<lparr>step_id = 0, step_description = ErrorNotSquare, step_matrix = m,
              step_operation = None, step_highlight = None\<rparr>]
      else
        (case lu_outer (length m) 0 (lu_init m) of
           Inl returned \<Rightarrow> Inr (map (resolve m (lu_U returned)) (lu_steps returned))
         | Inr st \<Rightarrow>
             let done = push_step LUComplete WorkingU None st
             in Inr (map (resolve m (lu_U done)) (lu_steps done))))"

text \<open>
  The states in which the outer loop of the LU trace arrives at a column: the initial
  state at column 0, and the state the inner loop hands back at the next column.
\<close>

inductive lu_reaches :: "nat \<Rightarrow> lu_state \<Rightarrow> nat \<Rightarrow> lu_state \<Rightarrow> bool" where
  start: "lu_reaches n st0 0 st0"
| column:
    "lu_reaches n st0 k st \<Longrightarrow> k < n - 1 \<Longrightarrow>
     lu_inner n k (Suc k)
       (push_step (WorkingOnColumn (k + 1)) WorkingU
          (Some \<lparr>hl_row = None, hl_col = Some k, hl_element = None\<rparr>) st) = Inr st' \<Longrightarrow>
     lu_reaches n st0 (Suc k) st'"

text \<open>
  The steps that the LU trace holds when the outer loop arrives at column \<open>k\<close>, written
  out: the initial step, then for every column before \<open>k\<close> its announcement and one
  elimination step for each row below it, with the multiplier that \<open>L\<close> holds for that
  row and column, numbered consecutively from 0. \<open>lu_eliminated\<close> is the working matrix
  after the row operations of one column.
\<close>

definition column_step :: "nat \<Rightarrow> nat \<Rightarrow> matrix_ref animation_step" where
  "column_step sid k =
     \<lparr>step_id = sid, step_description = WorkingOnColumn (k + 1), step_matrix = WorkingU,
      step_operation = None,
      step_highlight = Some \<lparr>hl_row = None, hl_col = Some k, hl_element = None\<rparr>\<rparr>"

definition eliminate_step :: "nat \<Rightarrow> nat \<Rightarrow> nat \<Rightarrow> real \<Rightarrow> matrix_ref animation_step" where
  "eliminate_step sid i k factor =
     \<lparr>step_id = sid, step_description = EliminateEntry (i + 1) (k + 1) factor,
      step_matrix = WorkingU, step_operation = None,
      step_highlight = Some \<lparr>hl_row = None, hl_col = None, hl_element = Some (i, k)\<rparr>\<rparr>"

fun lu_trace :: "nat \<Rightarrow> matrix \<Rightarrow> nat \<Rightarrow> matrix_ref animation_step list" where
  "lu_trace n L 0 =
     [\<lparr>step_id = 0, step_description = InitializeLU, step_matrix = InputMatrix,
       step_operation = None, step_highlight = None\<rparr>]"
| "lu_trace n L (Suc k) =
     (let before = lu_trace n L k
      in before @ column_step (length before) k
           # map (\<lambda>i. eliminate_step (length before + (i - k)) i k (L ! i ! k)) [Suc k..<n])"

definition lu_eliminated :: "nat \<Rightarrow> nat \<Rightarrow> matrix \<Rightarrow> matrix" where
  "lu_eliminated n k U =
     map (\<lambda>i. if k < i
              then foldl (\<lambda>r j. r[j := r ! j - U ! i ! k / U ! k ! k * U ! k ! j]) (U ! i) [k..<n]
              else U ! i)
         [0..<n]"

text \<open>
  The run of \<open>rref\<close> from a loop state, asking of every pivot it selects that it is 1 or
  farther than the tolerance from 1.
\<close>

function pivots_scaled :: "nat \<Rightarrow> nat \<Rightarrow> nat \<Rightarrow> nat \<Rightarrow> matrix \<Rightarrow> bool" where
  "pivots_scaled rows cols col pivotRow result =
     (if col < cols \<and> pivotRow < rows then
        let maxRow = find_max_row result col pivotRow rows in
        if \<bar>result ! maxRow ! col\<bar> < tol then pivots_scaled rows cols (Suc col) pivotRow result
        else
          let swapped = swap_rows result pivotRow maxRow;
              pivot = swapped ! pivotRow ! col;
              scaled = swapped[pivotRow := scale_row (swapped ! pivotRow) pivot cols];
              eliminated = eliminate_column scaled pivotRow col rows cols
          in (pivot = 1 \<or> \<bar>pivot - 1\<bar> > tol)
             \<and> pivots_scaled rows cols (Suc col) (Suc pivotRow) eliminated
      else True)"
  by pat_completeness auto
termination
  by (relation "measure (\<lambda>(rows, cols, col, pivotRow, result). cols - col)") auto

declare pivots_scaled.simps [simp del]

text \<open>
  Two notions for the statements about the Gaussian trace: the steps that record a row
  operation, and that a loop state continues another one, that is, it keeps the steps
  recorded so far and adds row-operation steps numbered consecutively.
\<close>

fun row_operation :: "step_text \<Rightarrow> bool" where
  "row_operation (RowSwap p q) = True"
| "row_operation (ScaleRow p x) = True"
| "row_operation (EliminateRow i x p) = True"
| "row_operation other = False"

definition extends :: "gauss_state \<Rightarrow> gauss_state \<Rightarrow> bool" where
  "extends st st' =
     (case (st, st') of ((r, steps, sid), (r', steps', sid')) \<Rightarrow>
        \<exists>ext. steps' = steps @ ext \<and> sid' = sid + length ext
            \<and> map step_id ext = [sid..<sid + length ext]
            \<and> list_all (\<lambda>s. row_operation (step_description s)) ext)"

section \<open>Reduced row echelon form\<close>

text \<open>
  The run of \<open>rref\<close> from a loop state, asking that the tolerance tests meet no small
  nonzero value: a column is left only when its pivot candidate is exactly 0, and an
  entry that the elimination does not touch is exactly 0.
\<close>

function exact_reduction :: "nat \<Rightarrow> nat \<Rightarrow> nat \<Rightarrow> nat \<Rightarrow> matrix \<Rightarrow> bool" where
  "exact_reduction rows cols col pivotRow result =
     (if col < cols \<and> pivotRow < rows then
        let maxRow = find_max_row result col pivotRow rows in
        if \<bar>result ! maxRow ! col\<bar> < tol
        then result ! maxRow ! col = 0 \<and> exact_reduction rows cols (Suc col) pivotRow result
        else
          let swapped = swap_rows result pivotRow maxRow;
              pivot = swapped ! pivotRow ! col;
              scaled = swapped[pivotRow := scale_row (swapped ! pivotRow) pivot cols];
              eliminated = eliminate_column scaled pivotRow col rows cols
          in list_all (\<lambda>i. i = pivotRow \<or> \<bar>scaled ! i ! col\<bar> > tol \<or> scaled ! i ! col = 0)
                      [0..<rows]
             \<and> exact_reduction rows cols (Suc col) (Suc pivotRow) eliminated
      else True)"
  by pat_completeness auto
termination
  by (relation "measure (\<lambda>(rows, cols, col, pivotRow, result). cols - col)") auto

declare exact_reduction.simps [simp del]

text \<open>
  \<open>rect\<close>: a matrix of the given shape. \<open>reduced\<close>: reduced row echelon form with the
  pivot columns \<open>pc\<close>, one for each of the leading rows, in increasing order: a pivot is 1,
  the rest of its column is 0, its row is 0 to its left, and the rows after the pivot
  rows are 0. \<open>echelon\<close> is the same for the columns before \<open>col\<close>, the state of the
  reduction when it arrives at column \<open>col\<close>.
\<close>

definition rect :: "nat \<Rightarrow> nat \<Rightarrow> matrix \<Rightarrow> bool" where
  "rect rows cols m = (length m = rows \<and> list_all (\<lambda>row. length row = cols) m)"

definition reduced :: "nat \<Rightarrow> nat \<Rightarrow> nat list \<Rightarrow> matrix \<Rightarrow> bool" where
  "reduced rows cols pc R =
     (rect rows cols R \<and> length pc \<le> rows \<and> sorted_wrt (<) pc \<and> (\<forall>c\<in>set pc. c < cols)
      \<and> (\<forall>k<length pc. R ! k ! (pc ! k) = 1
             \<and> (\<forall>i<rows. i \<noteq> k \<longrightarrow> R ! i ! (pc ! k) = 0)
             \<and> (\<forall>j<pc ! k. R ! k ! j = 0))
      \<and> (\<forall>i<rows. length pc \<le> i \<longrightarrow> (\<forall>j<cols. R ! i ! j = 0)))"

definition echelon :: "nat \<Rightarrow> nat \<Rightarrow> nat \<Rightarrow> nat list \<Rightarrow> matrix \<Rightarrow> bool" where
  "echelon rows cols col pc M =
     (rect rows cols M \<and> length pc \<le> rows \<and> sorted_wrt (<) pc \<and> (\<forall>c\<in>set pc. c < col)
      \<and> (\<forall>k<length pc. M ! k ! (pc ! k) = 1
             \<and> (\<forall>i<rows. i \<noteq> k \<longrightarrow> M ! i ! (pc ! k) = 0)
             \<and> (\<forall>j<pc ! k. M ! k ! j = 0))
      \<and> (\<forall>i<rows. length pc \<le> i \<longrightarrow> (\<forall>j<col. M ! i ! j = 0)))"

section \<open>The operations on a store of arrays\<close>

text \<open>
  For the claims about mutation and sharing the arrays live in a store: a list of
  objects, an address is a position in it, and a new array goes to the end. A number
  array holds numbers, the outer array of a matrix holds the addresses of its rows.
  A read of an address that holds nothing, or the other kind of array, gives the empty
  array. Arrays that an operation builds and drops before it returns (the minors of
  \<open>determinant\<close>, the array that \<open>slice\<close> returns) are not allocated here.
\<close>

datatype obj = Nums "real list" | Refs "nat list"

type_synonym addr = nat
type_synonym heap = "obj list"

definition nums :: "heap \<Rightarrow> addr \<Rightarrow> real list" where
  "nums h a = (if a < length h then (case h ! a of Nums xs \<Rightarrow> xs | Refs rs \<Rightarrow> []) else [])"

definition refs :: "heap \<Rightarrow> addr \<Rightarrow> addr list" where
  "refs h a = (if a < length h then (case h ! a of Refs rs \<Rightarrow> rs | Nums xs \<Rightarrow> []) else [])"

definition matrix_at :: "heap \<Rightarrow> addr \<Rightarrow> matrix" where
  "matrix_at h a = map (nums h) (refs h a)"

definition entry :: "heap \<Rightarrow> addr \<Rightarrow> nat \<Rightarrow> nat \<Rightarrow> real" where
  "entry h a i j = nums h (refs h a ! i) ! j"

definition alloc_vector :: "heap \<Rightarrow> vector \<Rightarrow> addr \<times> heap" where
  "alloc_vector h v = (length h, h @ [Nums v])"

definition alloc_matrix :: "heap \<Rightarrow> matrix \<Rightarrow> addr \<times> heap" where
  "alloc_matrix h m =
     (length h + length m, h @ map Nums m @ [Refs [length h..<length h + length m]])"

text \<open>
  \<open>a[i][j] = v\<close> writes into the row array that \<open>a[i]\<close> refers to, and the exchange of two
  rows writes two references into the outer array. The loops of the source keep \<open>i\<close>
  below \<open>a.length\<close>.
\<close>

definition set_entry :: "heap \<Rightarrow> addr \<Rightarrow> nat \<Rightarrow> nat \<Rightarrow> real \<Rightarrow> heap" where
  "set_entry h a i j v =
     (if i < length (refs h a)
      then h[refs h a ! i := Nums ((nums h (refs h a ! i))[j := v])]
      else h)"

definition swap_refs :: "heap \<Rightarrow> addr \<Rightarrow> nat \<Rightarrow> nat \<Rightarrow> heap" where
  "swap_refs h a p q =
     (if p < length (refs h a) \<and> q < length (refs h a)
      then h[a := Refs (((refs h a)[p := refs h a ! q])[q := refs h a ! p])]
      else h)"

text \<open>\<open>matrix.map(row => [...row])\<close> and \<open>createMatrix\<close> build new rows and a new outer array.\<close>

definition copy_matrix :: "heap \<Rightarrow> addr \<Rightarrow> addr \<times> heap" where
  "copy_matrix h a = alloc_matrix h (matrix_at h a)"

definition createMatrix_h :: "heap \<Rightarrow> nat \<Rightarrow> nat \<Rightarrow> real \<Rightarrow> addr \<times> heap" where
  "createMatrix_h h rows cols fill = alloc_matrix h (createMatrix rows cols fill)"

text \<open>
  The operations written with \<open>map\<close>, \<open>reduce\<close>, \<open>filter\<close> and array literals read their
  arguments and build their result from new arrays: the value is the one of the pure
  function on what the store holds, allocated at the end of the store.
\<close>

definition return_matrix :: "heap \<Rightarrow> error + matrix \<Rightarrow> (error + addr) \<times> heap" where
  "return_matrix h result =
     (case result of
        Inl e \<Rightarrow> (Inl e, h)
      | Inr m \<Rightarrow> (case alloc_matrix h m of (a, h') \<Rightarrow> (Inr a, h')))"

definition return_vector :: "heap \<Rightarrow> error + vector \<Rightarrow> (error + addr) \<times> heap" where
  "return_vector h result =
     (case result of
        Inl e \<Rightarrow> (Inl e, h)
      | Inr v \<Rightarrow> (case alloc_vector h v of (a, h') \<Rightarrow> (Inr a, h')))"

definition addMatrices_h :: "heap \<Rightarrow> addr \<Rightarrow> addr \<Rightarrow> (error + addr) \<times> heap" where
  "addMatrices_h h a b = return_matrix h (addMatrices (matrix_at h a) (matrix_at h b))"

definition subtractMatrices_h :: "heap \<Rightarrow> addr \<Rightarrow> addr \<Rightarrow> (error + addr) \<times> heap" where
  "subtractMatrices_h h a b = return_matrix h (subtractMatrices (matrix_at h a) (matrix_at h b))"

definition scalarMultiply_h :: "heap \<Rightarrow> addr \<Rightarrow> real \<Rightarrow> (error + addr) \<times> heap" where
  "scalarMultiply_h h a scalar = return_matrix h (Inr (scalarMultiply (matrix_at h a) scalar))"

definition transpose_h :: "heap \<Rightarrow> addr \<Rightarrow> (error + addr) \<times> heap" where
  "transpose_h h a = return_matrix h (transpose_mat (matrix_at h a))"

definition determinant_h :: "heap \<Rightarrow> addr \<Rightarrow> (error + real) \<times> heap" where
  "determinant_h h a = (determinant (matrix_at h a), h)"

definition dotProduct_h :: "heap \<Rightarrow> addr \<Rightarrow> addr \<Rightarrow> (error + real) \<times> heap" where
  "dotProduct_h h a b = (dotProduct (nums h a) (nums h b), h)"

definition crossProduct_h :: "heap \<Rightarrow> addr \<Rightarrow> addr \<Rightarrow> (error + addr) \<times> heap" where
  "crossProduct_h h a b = return_vector h (crossProduct (nums h a) (nums h b))"

definition vectorMagnitude_h :: "heap \<Rightarrow> addr \<Rightarrow> real \<times> heap" where
  "vectorMagnitude_h h a = (vectorMagnitude (nums h a), h)"

definition normalizeVector_h :: "heap \<Rightarrow> addr \<Rightarrow> (error + addr) \<times> heap" where
  "normalizeVector_h h a = return_vector h (normalizeVector (nums h a))"

definition angleBetweenVectors_h :: "heap \<Rightarrow> addr \<Rightarrow> addr \<Rightarrow> (error + real) \<times> heap" where
  "angleBetweenVectors_h h a b = (angleBetweenVectors (nums h a) (nums h b), h)"

text \<open>
  \<open>multiplyMatrices\<close> creates the result with \<open>createMatrix\<close> and accumulates into it with
  \<open>result[i][j] += a[i][k] * b[k][j]\<close>, reading the current store each time.
\<close>

definition multiply_loops :: "heap \<Rightarrow> addr \<Rightarrow> addr \<Rightarrow> addr \<Rightarrow> nat \<Rightarrow> nat \<Rightarrow> nat \<Rightarrow> heap" where
  "multiply_loops h result a b rows cols inner =
     foldl (\<lambda>h i.
        foldl (\<lambda>h j.
           foldl (\<lambda>h k. set_entry h result i j (entry h result i j + entry h a i k * entry h b k j))
                 h [0..<inner])
              h [0..<cols])
           h [0..<rows]"

definition multiplyMatrices_h :: "heap \<Rightarrow> addr \<Rightarrow> addr \<Rightarrow> (error + addr) \<times> heap" where
  "multiplyMatrices_h h a b =
     (if refs h a = [] then (Inl TypeError, h)
      else if length (nums h (refs h a ! 0)) \<noteq> length (refs h b) then (Inl DimensionMismatch, h)
      else if refs h b = [] then (Inl TypeError, h)
      else
        case createMatrix_h h (length (refs h a)) (length (nums h (refs h b ! 0))) 0 of
          (result, h1) \<Rightarrow>
            (Inr result,
             multiply_loops h1 result a b (length (refs h a)) (length (nums h (refs h b ! 0)))
               (length (nums h (refs h a ! 0)))))"

text \<open>
  The row operations of \<open>rref\<close> and \<open>gaussJordan\<close> on the store, entry by entry, on the
  matrix at address \<open>result\<close>.
\<close>

definition scale_row_h :: "heap \<Rightarrow> addr \<Rightarrow> nat \<Rightarrow> real \<Rightarrow> nat \<Rightarrow> heap" where
  "scale_row_h h result i pivot cols =
     foldl (\<lambda>h j. set_entry h result i j (entry h result i j / pivot)) h [0..<cols]"

definition subtract_row_h :: "heap \<Rightarrow> addr \<Rightarrow> nat \<Rightarrow> real \<Rightarrow> nat \<Rightarrow> nat \<Rightarrow> heap" where
  "subtract_row_h h result i factor pivotRow cols =
     foldl (\<lambda>h j. set_entry h result i j (entry h result i j - factor * entry h result pivotRow j))
           h [0..<cols]"

definition eliminate_column_h :: "heap \<Rightarrow> addr \<Rightarrow> nat \<Rightarrow> nat \<Rightarrow> nat \<Rightarrow> nat \<Rightarrow> heap" where
  "eliminate_column_h h result pivotRow col rows cols =
     foldl (\<lambda>h i. if i \<noteq> pivotRow \<and> \<bar>entry h result i col\<bar> > tol
                   then subtract_row_h h result i (entry h result i col) pivotRow cols
                   else h)
           h [0..<rows]"

function rref_loop_h :: "nat \<Rightarrow> nat \<Rightarrow> nat \<Rightarrow> nat \<Rightarrow> addr \<Rightarrow> heap \<Rightarrow> heap" where
  "rref_loop_h rows cols col pivotRow result h =
     (if col < cols \<and> pivotRow < rows then
        let maxRow = find_max_row (matrix_at h result) col pivotRow rows in
        if \<bar>entry h result maxRow col\<bar> < tol
        then rref_loop_h rows cols (Suc col) pivotRow result h
        else
          let h1 = swap_refs h result pivotRow maxRow;
              pivot = entry h1 result pivotRow col;
              h2 = scale_row_h h1 result pivotRow pivot cols;
              h3 = eliminate_column_h h2 result pivotRow col rows cols
          in rref_loop_h rows cols (Suc col) (Suc pivotRow) result h3
      else h)"
  by pat_completeness auto
termination
  by (relation "measure (\<lambda>(rows, cols, col, pivotRow, result, h). cols - col)") auto

declare rref_loop_h.simps [simp del]

definition rref_h :: "heap \<Rightarrow> addr \<Rightarrow> (error + addr) \<times> heap" where
  "rref_h h m =
     (case copy_matrix h m of
        (result, h1) \<Rightarrow>
          if refs h1 result = [] then (Inl TypeError, h1)
          else (Inr result,
                rref_loop_h (length (refs h1 result)) (length (nums h1 (refs h1 result ! 0)))
                  0 0 result h1))"

definition rank_h :: "heap \<Rightarrow> addr \<Rightarrow> (error + nat) \<times> heap" where
  "rank_h h m =
     (case rref_h h m of
        (Inl e, h') \<Rightarrow> (Inl e, h')
      | (Inr rrefMatrix, h') \<Rightarrow>
          (Inr (length (filter (\<lambda>row. list_ex (\<lambda>val. \<bar>val\<bar> > tol) row) (matrix_at h' rrefMatrix))),
           h'))"

definition eliminate_column_all_h :: "heap \<Rightarrow> addr \<Rightarrow> nat \<Rightarrow> nat \<Rightarrow> nat \<Rightarrow> heap" where
  "eliminate_column_all_h h result i rows cols =
     foldl (\<lambda>h k. if k \<noteq> i
                   then subtract_row_h h result k (entry h result k i) i cols
                   else h)
           h [0..<rows]"

definition gaussJordan_step_h :: "nat \<Rightarrow> nat \<Rightarrow> addr \<Rightarrow> heap \<Rightarrow> nat \<Rightarrow> heap" where
  "gaussJordan_step_h rows cols result h i =
     (let maxRow = find_max_row (matrix_at h result) i i rows;
          h1 = swap_refs h result i maxRow;
          pivot = entry h1 result i i
      in if \<bar>pivot\<bar> < tol then h1
         else eliminate_column_all_h (scale_row_h h1 result i pivot cols) result i rows cols)"

definition gaussJordan_h :: "heap \<Rightarrow> addr \<Rightarrow> (error + addr) \<times> heap" where
  "gaussJordan_h h m =
     (case copy_matrix h m of
        (result, h1) \<Rightarrow>
          if refs h1 result = [] then (Inl TypeError, h1)
          else (Inr result,
                foldl (gaussJordan_step_h (length (refs h1 result))
                         (length (nums h1 (refs h1 result ! 0))) result)
                      h1
                      [0..<min (length (refs h1 result)) (length (nums h1 (refs h1 result ! 0)))]))"

definition inverse_h :: "heap \<Rightarrow> addr \<Rightarrow> (error + addr) \<times> heap" where
  "inverse_h h m =
     (let M = matrix_at h m in
      if M = [] then (Inl TypeError, h)
      else if length M \<noteq> length (M ! 0) then (Inl NotSquare, h)
      else case determinant M of
             Inl e \<Rightarrow> (Inl e, h)
           | Inr det \<Rightarrow>
               if \<bar>det\<bar> < tol then (Inl Singular, h)
               else if length M = 2 then
                 return_matrix h (Inr [[M ! 1 ! 1 / det, - (M ! 0 ! 1) / det],
                                       [- (M ! 1 ! 0) / det, M ! 0 ! 0 / det]])
               else
                 (case alloc_matrix h (augment_identity M) of
                    (augmented, h1) \<Rightarrow>
                      (case gaussJordan_h h1 augmented of
                         (Inl e, h2) \<Rightarrow> (Inl e, h2)
                       | (Inr g, h2) \<Rightarrow>
                           return_matrix h2
                             (Inr (map (drop (length M)) (take (length M) (matrix_at h2 g)))))))"

definition identity_h :: "heap \<Rightarrow> nat \<Rightarrow> addr \<times> heap" where
  "identity_h h n =
     (case createMatrix_h h n n 0 of
        (identity, h1) \<Rightarrow> (identity, foldl (\<lambda>h i. set_entry h identity i i 1) h1 [0..<n]))"

definition matrixPower_h :: "heap \<Rightarrow> addr \<Rightarrow> int \<Rightarrow> (error + addr) \<times> heap" where
  "matrixPower_h h A pow =
     (if pow = 0 then (case identity_h h (length (refs h A)) of (i, h') \<Rightarrow> (Inr i, h'))
      else if pow = 1 then (Inr A, h)
      else foldl (\<lambda>(result, h) i. case result of
                                     Inl e \<Rightarrow> (Inl e, h)
                                   | Inr r \<Rightarrow> multiplyMatrices_h h r A)
                 (Inr A, h) [1..<nat pow])"

text \<open>
  \<open>frame h h'\<close>: every array of \<open>h\<close> is in \<open>h'\<close> at its address with its contents.
  \<open>fresh h result\<close>: a returned address was not in use in \<open>h\<close>. \<open>owned h0 h c\<close>: the matrix
  at \<open>c\<close> and its rows were allocated after \<open>h0\<close>, and \<open>h\<close> keeps the arrays of \<open>h0\<close>.
\<close>

definition frame :: "heap \<Rightarrow> heap \<Rightarrow> bool" where
  "frame h h' = (length h \<le> length h' \<and> take (length h) h' = h)"

definition fresh :: "heap \<Rightarrow> error + addr \<Rightarrow> bool" where
  "fresh h result = (case result of Inl e \<Rightarrow> True | Inr a \<Rightarrow> length h \<le> a)"

definition owned :: "heap \<Rightarrow> heap \<Rightarrow> addr \<Rightarrow> bool" where
  "owned h0 h c =
     (frame h0 h \<and> length h0 \<le> c \<and> (\<forall>r\<in>set (refs h c). length h0 \<le> r \<and> r \<noteq> c))"

section \<open>The Laplace expansion on index functions\<close>

text \<open>
  The cofactor expansion along the first row, on a matrix given by its entries
  \<open>f i j\<close>: the mathematical function that \<open>determinant\<close> computes on a square array.
  \<open>skip j\<close> renumbers the columns that remain once column \<open>j\<close> is removed.
\<close>

definition skip :: "nat \<Rightarrow> nat \<Rightarrow> nat" where
  "skip j c = (if c < j then c else Suc c)"

primrec laplace :: "nat \<Rightarrow> (nat \<Rightarrow> nat \<Rightarrow> real) \<Rightarrow> real" where
  "laplace 0 f = 1"
| "laplace (Suc n) f =
     (\<Sum>j\<le>n. (- 1) ^ j * f 0 j * laplace n (\<lambda>r c. f (Suc r) (skip j c)))"

definition is_square :: "nat \<Rightarrow> matrix \<Rightarrow> bool" where
  "is_square n m = (length m = n \<and> list_all (\<lambda>row. length row = n) m)"

section \<open>The solver on a system whose pivot rows are not the leading rows\<close>

text \<open>
  C1. The RREF-method solver builds \<open>[A|b]\<close>, reduces it and classifies the system; in the
  unique case the variable of each pivot column is to be the augmented entry of that
  pivot's row. The reconstruction loop reads row \<open>i\<close> for the \<open>i\<close>-th pivot found, which is
  the pivot's row only while the pivot rows are the leading rows. The system
  \<open>x = 2, x / 2^34 = 1 / 2^33\<close> has the solution \<open>x = 2\<close>. Its reduced matrix is
  \<open>[[0, 0], [1/2, 1]]\<close>: row 0 has no pivot, the pivot of column 0 is in row 1, whose
  augmented entry is 1. The solver answers \<open>unique\<close> with \<open>x = 0\<close>, the augmented entry of
  row 0.
\<close>

theorem solveByRREF_reads_wrong_row:
  "rref [[1, 2], [1 / 2 ^ 34, 1 / 2 ^ 33]] = Inr [[0, 0], [1 / 2, 1]]
   \<and> row_pivot [0, 0] 1 = None
   \<and> row_pivot [1 / 2, 1] 1 = Some 0
   \<and> solveByRREF [[1], [1 / 2 ^ 34]] [2, 1 / 2 ^ 33] [] =
       Inr \<lparr>sol_type = Unique, sol_solution = Some [0],
            sol_message = UniqueSolutionFound,
            sol_steps = [MethodRREF, CreateAugmented 2 2, ApplyRowOperations,
                         FoundPivots 1 1, PivotsEqualVariables, SolutionIs [0]]\<rparr>"
  by code_simp

section \<open>The inverse of a matrix with a pivot below the tolerance\<close>

text \<open>
  C2. For a square matrix with more than two rows, a pivot candidate below the tolerance
  during the elimination of \<open>[A|I]\<close> is to make \<open>inverse\<close> fail with a \<open>Singular\<close> error.
  The matrix \<open>diag(1/2^34, 2^34, 1)\<close> has determinant 1, and its pivot candidate in
  column 0 is \<open>1/2^34\<close>, below \<open>1e-10\<close>. \<open>gaussJordan\<close> leaves the column (\<open>continue\<close>) and
  \<open>inverse\<close> returns a matrix.
\<close>

theorem inverse_skips_small_pivot:
  "determinant [[1 / 2 ^ 34, 0, 0], [0, 2 ^ 34, 0], [0, 0, 1]] = Inr 1
   \<and> \<bar>augment_identity [[1 / 2 ^ 34, 0, 0], [0, 2 ^ 34, 0], [0, 0, 1]]
        ! find_max_row (augment_identity [[1 / 2 ^ 34, 0, 0], [0, 2 ^ 34, 0], [0, 0, 1]]) 0 0 3
        ! 0\<bar> < tol
   \<and> inverse_mat [[1 / 2 ^ 34, 0, 0], [0, 2 ^ 34, 0], [0, 0, 1]] =
       Inr [[1, 0, 0], [0, 1 / 2 ^ 34, 0], [0, 0, 1]]"
  by code_simp

section \<open>Matrix power with exponent 0\<close>

text \<open>
  C3. For a square matrix and an integer exponent \<open>n \<ge> 0\<close> the matrix power is to succeed,
  with the identity for \<open>n = 0\<close>. \<open>matrixPower\<close> has that case, but the only way to it is
  \<open>calculateMatrixFunction\<close>, whose guard \<open>!power || power < 0\<close> rejects 0.
\<close>

theorem matrix_power_zero_rejected:
  "calculateMatrixFunction [[1, 2], [3, 4]] ''power'' (Some 0) = Inl InvalidPower
   \<and> matrixPower [[1, 2], [3, 4]] 0 = Inr [[1, 0], [0, 1]]"
  by code_simp

section \<open>The product of a matrix and its computed inverse\<close>

text \<open>
  C4. For a square matrix with \<open>|det| \<ge> 1e-10\<close> the product with its inverse is to be
  within \<open>1e-8\<close> of the identity in every entry. For \<open>diag(1/2^34, 2^34, 1)\<close>, with
  determinant 1, the product with the computed inverse has \<open>1/2^34\<close> in its first
  diagonal entry.
\<close>

theorem inverse_round_trip_fails:
  "determinant [[1 / 2 ^ 34, 0, 0], [0, 2 ^ 34, 0], [0, 0, 1]] = Inr 1
   \<and> (case inverse_mat [[1 / 2 ^ 34, 0, 0], [0, 2 ^ 34, 0], [0, 0, 1]] of
         Inl e \<Rightarrow> Inl e
       | Inr B \<Rightarrow> multiplyMatrices [[1 / 2 ^ 34, 0, 0], [0, 2 ^ 34, 0], [0, 0, 1]] B) =
       Inr [[1 / 2 ^ 34, 0, 0], [0, 1, 0], [0, 0, 1]]
   \<and> identity_matrix 3 = [[1, 0, 0], [0, 1, 0], [0, 0, 1]]
   \<and> \<bar>1 / 2 ^ 34 - (1::real)\<bar> > 1 / 10 ^ 8"
  by code_simp

section \<open>The angle between two vectors\<close>

subsection \<open>Rounding to a double\<close>

lemma powi_nat: "0 \<le> e \<Longrightarrow> (2::real) powi e = 2 ^ nat e"
  by (simp add: power_int_def)

lemma powi_neg: "e \<le> 0 \<Longrightarrow> (2::real) powi e = 1 / 2 ^ nat (- e)"
  by (cases "e = 0") (simp_all add: power_int_def field_simps)

lemma powi_mono: "e \<le> e' \<Longrightarrow> (2::real) powi e \<le> 2 powi e'"
  by (rule power_int_increasing) simp_all

lemma powi_strict_mono: "e < e' \<Longrightarrow> (2::real) powi e < 2 powi e'"
  by (rule power_int_strict_increasing) simp_all

lemma powi_Suc: "(2::real) powi (e + 1) = 2 * 2 powi e"
  by (simp add: power_int_add)

lemma expo_bounds:
  assumes "x \<noteq> 0"
  shows "2 powi expo x \<le> \<bar>x\<bar>" and "\<bar>x\<bar> < 2 powi (expo x + 1)"
proof -
  define a where "a = \<bar>x\<bar>"
  have a: "0 < a" using assms by (simp add: a_def)
  have "2 powi expo x \<le> a \<and> a < 2 powi (expo x + 1)"
  proof (cases "1 \<le> a")
    case True
    define n where "n = \<lfloor>a\<rfloor>"
    have n: "0 < n" using True by (simp add: n_def)
    have e: "expo x = bitlen n - 1" using True by (simp add: expo_def a_def n_def)
    have b: "1 \<le> bitlen n" using n by (simp add: bitlen_alt_def)
    from bitlen_bounds [OF n] have lo: "2 ^ nat (bitlen n - 1) \<le> n" and hi: "n < 2 ^ nat (bitlen n)"
      by simp_all
    have "(2::real) powi (bitlen n - 1) = of_int (2 ^ nat (bitlen n - 1))"
      using b by (simp add: powi_nat)
    also have "\<dots> \<le> of_int n" using lo by (simp only: of_int_le_iff)
    also have "\<dots> \<le> a" by (simp add: n_def)
    finally have 1: "2 powi expo x \<le> a" by (simp add: e)
    have "n + 1 \<le> 2 ^ nat (bitlen n)" using hi by simp
    then have "(of_int (n + 1) :: real) \<le> of_int (2 ^ nat (bitlen n))" by (simp only: of_int_le_iff)
    moreover have "a < of_int (n + 1)" by (simp add: n_def)
    ultimately have "a < of_int (2 ^ nat (bitlen n))" by linarith
    also have "\<dots> = 2 powi (bitlen n)" using b by (simp add: powi_nat)
    finally have 2: "a < 2 powi (expo x + 1)" by (simp add: e)
    from 1 2 show ?thesis ..
  next
    case False
    then have lt: "a < 1" by simp
    define y where "y = 1 / a"
    have y: "1 < y" using a lt by (simp add: y_def)
    define n where "n = \<lceil>y\<rceil> - 1"
    have n: "0 < n" using y by (simp add: n_def less_ceiling_iff)
    have e: "expo x = - bitlen n" using False by (simp add: expo_def a_def n_def y_def)
    have b: "1 \<le> bitlen n" using n by (simp add: bitlen_alt_def)
    from bitlen_bounds [OF n] have lo: "2 ^ nat (bitlen n - 1) \<le> n" and hi: "n < 2 ^ nat (bitlen n)"
      by simp_all
    have "y \<le> of_int (n + 1)" by (simp add: n_def)
    moreover have "n + 1 \<le> 2 ^ nat (bitlen n)" using hi by simp
    then have "(of_int (n + 1) :: real) \<le> of_int (2 ^ nat (bitlen n))" by (simp only: of_int_le_iff)
    moreover have "(of_int (2 ^ nat (bitlen n)) :: real) = 2 ^ nat (bitlen n)" by simp
    ultimately have "y \<le> 2 ^ nat (bitlen n)" by linarith
    then have "1 / 2 ^ nat (bitlen n) \<le> 1 / y" using y by (intro divide_left_mono) simp_all
    moreover have "1 / y = a" using a by (simp add: y_def)
    moreover have "(2::real) powi (- bitlen n) = 1 / 2 ^ nat (bitlen n)"
      using b by (simp add: powi_neg)
    ultimately have 1: "2 powi expo x \<le> a" by (simp add: e)
    have "of_int n < y" unfolding n_def by linarith
    moreover have "(of_int (2 ^ nat (bitlen n - 1)) :: real) \<le> of_int n"
      using lo by (simp only: of_int_le_iff)
    moreover have "(of_int (2 ^ nat (bitlen n - 1)) :: real) = 2 ^ nat (bitlen n - 1)" by simp
    ultimately have "2 ^ nat (bitlen n - 1) < y" by linarith
    then have "1 / y < 1 / 2 ^ nat (bitlen n - 1)"
      using y by (intro divide_strict_left_mono mult_pos_pos) simp_all
    moreover have "(2::real) powi (- bitlen n + 1) = 1 / 2 ^ nat (bitlen n - 1)"
      using b powi_neg [of "- bitlen n + 1"] by simp
    ultimately have 2: "a < 2 powi (expo x + 1)" using \<open>1 / y = a\<close> by (simp add: e)
    from 1 2 show ?thesis ..
  qed
  then show "2 powi expo x \<le> \<bar>x\<bar>" and "\<bar>x\<bar> < 2 powi (expo x + 1)"
    by (simp_all add: a_def)
qed

lemma expo_unique:
  assumes "2 powi e \<le> \<bar>x\<bar>" and "\<bar>x\<bar> < 2 powi (e + 1)"
  shows "expo x = e"
proof -
  have "0 < (2::real) powi e" by simp
  with assms(1) have "0 < \<bar>x\<bar>" by linarith
  then have x: "x \<noteq> 0" by simp
  note b = expo_bounds [OF x]
  have "\<not> expo x < e"
  proof
    assume "expo x < e"
    then have "(2::real) powi (expo x + 1) \<le> 2 powi e" by (intro powi_mono) simp
    with b(2) assms(1) show False by linarith
  qed
  moreover have "\<not> e < expo x"
  proof
    assume "e < expo x"
    then have "(2::real) powi (e + 1) \<le> 2 powi expo x" by (intro powi_mono) simp
    with b(1) assms(2) show False by linarith
  qed
  ultimately show ?thesis by simp
qed

lemma round_even_error: "\<bar>of_int (round_even y) - y\<bar> \<le> 1 / 2"
proof -
  have "of_int \<lfloor>y\<rfloor> \<le> y" "y < of_int \<lfloor>y\<rfloor> + 1" by linarith+
  then show ?thesis by (auto simp add: round_even_def Let_def)
qed

lemma round_even_unique:
  assumes "\<bar>y - of_int n\<bar> < 1 / 2"
  shows "round_even y = n"
proof -
  have e: "\<bar>of_int (round_even y) - y\<bar> \<le> 1 / 2" by (rule round_even_error)
  have "\<bar>(of_int (round_even y) :: real) - of_int n\<bar> < 1" using e assms by linarith
  then have "\<bar>(of_int (round_even y - n) :: real)\<bar> < 1" by simp
  then have "\<bar>round_even y - n\<bar> < 1" by (simp only: of_int_abs [symmetric] of_int_less_1_iff)
  then show ?thesis by simp
qed

lemma round_even_of_int [simp]: "round_even (of_int n) = n"
  by (rule round_even_unique) simp

lemma round_even_ge:
  assumes "of_int n \<le> y"
  shows "n \<le> round_even y"
proof -
  have "n \<le> \<lfloor>y\<rfloor>" using assms by (simp add: le_floor_iff)
  moreover have "\<lfloor>y\<rfloor> \<le> round_even y" by (simp add: round_even_def Let_def)
  ultimately show ?thesis by simp
qed

lemma round_even_le:
  assumes "y \<le> of_int n"
  shows "round_even y \<le> n"
proof (cases "y = of_int n")
  case True
  then show ?thesis by simp
next
  case False
  with assms have "y < of_int n" by simp
  then have "\<lfloor>y\<rfloor> < n" by (simp add: floor_less_iff)
  moreover have "round_even y \<le> \<lfloor>y\<rfloor> + 1" by (simp add: round_even_def Let_def)
  ultimately show ?thesis by simp
qed

lemma ulp_pos [simp]: "0 < ulp x"
  by (simp add: ulp_def)

lemma ulp_nonneg [simp]: "0 \<le> ulp x"
  using ulp_pos [of x] by linarith

lemma ulp_nonzero [simp]: "ulp x \<noteq> 0"
  using ulp_pos [of x] by linarith

lemma powi_not_le_zero [simp]: "\<not> (2::real) powi e \<le> 0"
  by (simp add: not_le)

lemma powi_le_nonzero:
  assumes "2 powi e \<le> \<bar>x\<bar>"
  shows "x \<noteq> (0::real)"
proof
  assume "x = 0"
  moreover have "0 < (2::real) powi e" by simp
  ultimately show False using assms by simp
qed

lemma expo_le:
  assumes "x \<noteq> 0" and "\<bar>x\<bar> < 2 powi (e + 1)"
  shows "expo x \<le> e"
proof (rule ccontr)
  assume "\<not> expo x \<le> e"
  then have "(2::real) powi (e + 1) \<le> 2 powi expo x" by (intro powi_mono) simp
  with expo_bounds(1) [OF assms(1)] assms(2) show False by linarith
qed

lemma expo_ge:
  assumes "2 powi e \<le> \<bar>x\<bar>"
  shows "e \<le> expo x"
proof (rule ccontr)
  assume "\<not> e \<le> expo x"
  then have "(2::real) powi (expo x + 1) \<le> 2 powi e" by (intro powi_mono) simp
  moreover have "x \<noteq> 0" using assms by (rule powi_le_nonzero)
  ultimately show False using expo_bounds(2) [of x] assms by linarith
qed

lemma ulp_le:
  assumes "x \<noteq> 0" and "\<bar>x\<bar> < 2 powi (e + 1)" and "- 1022 \<le> e"
  shows "ulp x \<le> 2 powi (e - 52)"
  unfolding ulp_def using expo_le [OF assms(1,2)] assms(3) by (intro powi_mono) simp

lemma ulp_normal:
  assumes "2 powi (- 1022) \<le> \<bar>x\<bar>"
  shows "ulp x = 2 powi (expo x - 52)" and "ulp x \<le> \<bar>x\<bar> / 2 ^ 52"
proof -
  have e: "- 1022 \<le> expo x" using assms by (rule expo_ge)
  then show u: "ulp x = 2 powi (expo x - 52)" by (simp add: ulp_def max_def)
  have x: "x \<noteq> 0" using assms by (rule powi_le_nonzero)
  have "(2::real) powi (expo x - 52) = 2 powi expo x / 2 ^ 52"
    by (simp add: power_int_diff)
  also have "\<dots> \<le> \<bar>x\<bar> / 2 ^ 52"
    using expo_bounds(1) [OF x] by (intro divide_right_mono) simp_all
  finally show "ulp x \<le> \<bar>x\<bar> / 2 ^ 52" by (simp only: u)
qed

text \<open>Rounding a positive number that is not too large.\<close>

lemma round_double_pos:
  assumes "0 < x" and "x \<le> 2 ^ 1023"
  shows "\<exists>r. round_double neg x = Fin r \<and> 0 \<le> r \<and> \<bar>r - x\<bar> \<le> ulp x / 2"
proof -
  define y where "y = x / ulp x"
  define n where "n = round_even y"
  define r where "r = of_int n * ulp x"
  have x: "x \<noteq> 0" using assms(1) by simp
  have y: "0 \<le> y" using assms(1) by (simp add: y_def divide_nonneg_nonneg)
  then have n: "0 \<le> n" unfolding n_def using round_even_ge [of 0 y] by simp
  have r0: "0 \<le> r" using n by (simp add: r_def)
  have "r - x = (of_int n - y) * ulp x" by (simp add: r_def y_def field_simps)
  then have "\<bar>r - x\<bar> = \<bar>of_int n - y\<bar> * ulp x" by (simp add: abs_mult)
  also have "\<dots> \<le> 1 / 2 * ulp x"
    unfolding n_def using round_even_error [of y] by (intro mult_right_mono) simp_all
  finally have err: "\<bar>r - x\<bar> \<le> ulp x / 2" by simp
  have "\<bar>x\<bar> < 2 powi (1023 + 1)" using assms by simp
  from ulp_le [OF x this] have "ulp x \<le> 2 powi 971" by simp
  then have "ulp x \<le> 2 ^ 971" by simp
  with err assms(2) have "r \<le> 2 ^ 1023 + 2 ^ 971 / 2" by linarith
  also have "\<dots> < (2::real) ^ 1024" by simp
  finally have "\<bar>r\<bar> < 2 ^ 1024" using r0 by simp
  then have "round_double neg x = Fin r"
    using x assms(1) by (auto simp add: round_double_def Let_def r_def n_def y_def)
  with r0 err show ?thesis by blast
qed

text \<open>In the normal range the result is within a relative error of \<open>2\<^sup>-\<^sup>5\<^sup>3\<close>.\<close>

lemma round_double_normal:
  assumes "2 powi (- 1022) \<le> x" and "x \<le> 2 ^ 1023"
  shows "\<exists>r. round_double neg x = Fin r \<and> \<bar>r - x\<bar> \<le> x / 2 ^ 53 \<and> 0 < r"
proof -
  have "0 < (2::real) powi (- 1022)" by simp
  with assms(1) have x: "0 < x" by linarith
  from round_double_pos [OF x assms(2)] obtain r where
    r: "round_double neg x = Fin r" "\<bar>r - x\<bar> \<le> ulp x / 2" by blast
  have "ulp x \<le> \<bar>x\<bar> / 2 ^ 52" using assms(1) x by (intro ulp_normal(2)) simp
  then have "ulp x / 2 \<le> x / 2 ^ 53" using x by simp
  with r(2) have e: "\<bar>r - x\<bar> \<le> x / 2 ^ 53" by linarith
  have "x / 2 ^ 53 < x" using x by simp
  with e have "0 < r" by linarith
  with r(1) e show ?thesis by blast
qed

text \<open>Underflow to zero and overflow to infinity.\<close>

lemma round_double_underflow:
  assumes "0 < x" and "x < 2 powi (- 1075)"
  shows "round_double neg x = Fin 0"
proof -
  have x: "x \<noteq> 0" using assms(1) by simp
  have "\<bar>x\<bar> < 2 powi (- 1076 + 1)" using assms by simp
  from expo_le [OF x this] have u: "ulp x = 2 powi (- 1074)" by (simp add: ulp_def max_def)
  have "x / ulp x < 2 powi (- 1075) / 2 powi (- 1074)"
    unfolding u using assms(2) by (intro divide_strict_right_mono) simp_all
  also have "\<dots> = 1 / 2" by (simp add: power_int_minus field_simps)
  finally have "\<bar>x / ulp x - of_int 0\<bar> < 1 / 2" using assms(1) by simp
  then have "round_even (x / ulp x) = 0" by (rule round_even_unique)
  then show ?thesis using assms(1) by (simp add: round_double_def)
qed

lemma round_double_overflow:
  assumes "2 ^ 1024 \<le> x"
  shows "round_double neg x = PosInf"
proof -
  have x: "0 < x" using assms by (rule less_le_trans [rotated]) simp
  have e: "1024 \<le> expo x" using assms x by (intro expo_ge) simp
  then have u: "ulp x = 2 powi (expo x - 52)" by (simp add: ulp_def max_def)
  have "(2::real) ^ 52 = 2 powi expo x / ulp x" by (simp add: u power_int_diff)
  also have "\<dots> \<le> x / ulp x"
    using expo_bounds(1) [of x] x by (intro divide_right_mono) simp_all
  finally have "of_int (2 ^ 52) \<le> x / ulp x" by simp
  then have "2 ^ 52 \<le> round_even (x / ulp x)" by (rule round_even_ge)
  then have "(of_int (2 ^ 52) :: real) \<le> of_int (round_even (x / ulp x))"
    by (simp only: of_int_le_iff)
  then have "2 ^ 52 * ulp x \<le> of_int (round_even (x / ulp x)) * ulp x"
    by (intro mult_right_mono) simp_all
  moreover have "2 ^ 52 * ulp x = 2 powi expo x" by (simp add: u power_int_diff)
  moreover have "(2::real) ^ 1024 \<le> 2 powi expo x" using powi_mono [OF e] by simp
  ultimately have "2 ^ 1024 \<le> of_int (round_even (x / ulp x)) * ulp x" by linarith
  then have "2 ^ 1024 \<le> \<bar>of_int (round_even (x / ulp x)) * ulp x\<bar>" by linarith
  then show ?thesis using x by (simp add: round_double_def Let_def)
qed

text \<open>The result is the multiple of the spacing that lies within half a spacing.\<close>

lemma round_double_near:
  assumes "2 powi e \<le> \<bar>x\<bar>" and "\<bar>x\<bar> < 2 powi (e + 1)"
    and "\<bar>x / 2 powi (max e (- 1022) - 52) - of_int n\<bar> < 1 / 2"
    and "n \<noteq> 0" and "\<bar>of_int n * 2 powi (max e (- 1022) - 52)\<bar> < (2::real) ^ 1024"
  shows "round_double neg x = Fin (of_int n * 2 powi (max e (- 1022) - 52))"
proof -
  have e: "expo x = e" using assms(1,2) by (rule expo_unique)
  have x: "x \<noteq> 0" using assms(1) by (rule powi_le_nonzero)
  have u: "ulp x = 2 powi (max e (- 1022) - 52)" by (simp add: ulp_def e)
  have n: "round_even (x / 2 powi (max e (- 1022) - 52)) = n"
    using assms(3) by (rule round_even_unique)
  show ?thesis
    using x assms(4,5) by (simp add: round_double_def Let_def u n)
qed

subsection \<open>The clamp\<close>

lemma clamp_NaN: "clamp_cosine_fp NaN = NaN"
  by (simp add: clamp_cosine_fp_def dmin_def dmax_def)

lemma clamp_above: "dless (Fin 1) q \<Longrightarrow> clamp_cosine_fp q = Fin 1"
  by (cases q) (auto simp add: clamp_cosine_fp_def dmin_def dmax_def is_zero_def)

lemma clamp_below: "dless q (Fin (- 1)) \<Longrightarrow> clamp_cosine_fp q = Fin (- 1)"
  by (cases q) (auto simp add: clamp_cosine_fp_def dmin_def dmax_def is_zero_def)

lemma clamp_inside:
  "q \<noteq> NaN \<Longrightarrow> \<not> dless (Fin 1) q \<Longrightarrow> \<not> dless q (Fin (- 1)) \<Longrightarrow> clamp_cosine_fp q = q"
  by (cases q) (auto simp add: clamp_cosine_fp_def dmin_def dmax_def is_zero_def)

lemma clamp_range:
  "q \<noteq> NaN \<Longrightarrow>
   is_finite (clamp_cosine_fp q) \<and> - 1 \<le> dval (clamp_cosine_fp q) \<and> dval (clamp_cosine_fp q) \<le> 1"
  by (cases q) (auto simp add: clamp_cosine_fp_def dmin_def dmax_def is_zero_def)

lemma cos_upper:
  fixes x :: real
  assumes "0 < x"
  shows "cos x \<le> 1 - x\<^sup>2 / 2 + x ^ 4 / 24"
proof -
  from Maclaurin_cos_expansion2 [of x 4] assms obtain t where
    t: "cos x = (\<Sum>m<4. cos_coeff m * x ^ m) + (cos (t + 1 / 2 * real 4 * pi) / fact 4) * x ^ 4"
    by auto
  have "{..<4::nat} = {0, 1, 2, 3}" by auto
  then have s: "(\<Sum>m<4. cos_coeff m * x ^ m) = 1 - x\<^sup>2 / 2"
    by (simp add: cos_coeff_def)
  have f: "fact 4 = (24 :: real)" by (simp add: eval_nat_numeral)
  have "cos (t + 1 / 2 * real 4 * pi) * x ^ 4 \<le> 1 * x ^ 4"
    by (intro mult_right_mono) simp_all
  then have "(cos (t + 1 / 2 * real 4 * pi) / fact 4) * x ^ 4 \<le> x ^ 4 / 24"
    by (simp add: f)
  with t s show ?thesis by linarith
qed

lemma arccos_near_one:
  assumes "1 - 1 / 2 ^ 51 \<le> c" and "c \<le> 1"
  shows "0 \<le> arccos c" and "arccos c \<le> 1 / 2 ^ 24"
proof -
  have c: "- 1 \<le> c" using assms(1) by (rule order_trans [rotated]) simp
  show "0 \<le> arccos c" using c assms(2) by (rule arccos_lbound)
  define t :: real where "t = 1 / 2 ^ 24"
  have t: "0 < t" "t \<le> pi" 
    using pi_ge_two by (simp_all add: t_def) 
  have "cos t \<le> 1 - t\<^sup>2 / 2 + t ^ 4 / 24" using t(1) by (rule cos_upper)
  also have "\<dots> \<le> 1 - 1 / 2 ^ 51" by (simp add: t_def power_divide)
  finally have "cos t \<le> c" using assms(1) by linarith
  then have "arccos c \<le> arccos (cos t)" using assms(2) by (intro arccos_le_arccos) simp_all
  also have "\<dots> = t" using t by (intro arccos_cos) simp_all
  finally show "arccos c \<le> 1 / 2 ^ 24" by (simp only: t_def)
qed

text \<open>The arc cosine of a number in \<open>[-1, 1]\<close> is a number, and between 0 and 4.\<close>

lemma round_angle:
  assumes "0 \<le> x" and "x \<le> b" and "b < 2 powi (e + 1)" and "- 1022 \<le> e" and "e \<le> 1022"
  shows "\<exists>r. round_double False x = Fin r \<and> 0 \<le> r \<and> r \<le> b + 2 powi (e - 53)"
proof (cases "x = 0")
  case True
  have "0 \<le> b + 2 powi (e - 53)" using assms(1,2) by (simp add: add_nonneg_nonneg)
  then show ?thesis using True by (simp add: round_double_def)
next
  case False
  then have x: "0 < x" using assms(1) by simp
  have "(2::real) powi (e + 1) \<le> 2 powi 1023" using assms(5) by (intro powi_mono) simp
  then have "x \<le> 2 ^ 1023" using assms(2,3) by simp
  from round_double_pos [OF x this] obtain r where
    r: "round_double False x = Fin r" "0 \<le> r" "\<bar>r - x\<bar> \<le> ulp x / 2" by blast
  have "\<bar>x\<bar> < 2 powi (e + 1)" using x assms(2,3) by simp
  from ulp_le [OF False this assms(4)] have "ulp x / 2 \<le> 2 powi (e - 52) / 2" by simp
  also have "\<dots> = 2 powi (e - 53)" by (simp add: power_int_diff)
  finally have "r \<le> x + 2 powi (e - 53)" using r(3) by linarith
  with r(1,2) assms(2) show ?thesis by auto
qed

lemma dacos_clamped:
  assumes "q \<noteq> NaN"
  shows "\<exists>angle. dacos (clamp_cosine_fp q) = Fin angle \<and> 0 \<le> angle
           \<and> angle \<le> pi + 1 / 2 ^ 52"
proof -
  define c where "c = dval (clamp_cosine_fp q)"
  from clamp_range [OF assms] have f: "is_finite (clamp_cosine_fp q)" and c: "- 1 \<le> c" "c \<le> 1"
    by (simp_all add: c_def)
  have d: "dacos (clamp_cosine_fp q) = round_double False (arccos c)"
    using f c by (cases "clamp_cosine_fp q") (auto simp add: c_def)
  have a: "0 \<le> arccos c" "arccos c \<le> pi" using c by (simp_all add: arccos_lbound arccos_ubound)
  have "pi < 2 powi (1 + 1)" using pi_less_4 by simp
  from round_angle [OF a this] obtain r where
    r: "round_double False (arccos c) = Fin r" "0 \<le> r" "r \<le> pi + 2 powi (1 - 53)" by auto
  have "(2::real) powi (1 - 53) = 1 / 2 ^ 52" by (simp add: power_int_minus field_simps)
  with r d show ?thesis by simp
qed

subsection \<open>The angle of a vector with itself\<close>

lemma foldl_index: "foldl (\<lambda>sum i. f sum (a ! i)) z [0..<length a] = foldl f z a"
proof -
  have "foldl f z (map ((!) a) [0..<length a]) = foldl (\<lambda>sum i. f sum (a ! i)) z [0..<length a]"
    by (simp add: foldl_map)
  then show ?thesis by (simp only: map_nth)
qed

lemma dotProduct_fp_self:
  "dotProduct_fp a a = Inr (foldl (\<lambda>sum val. dadd sum (dmul val val)) (Fin 0) a)"
  using foldl_index [of "\<lambda>sum val. dadd sum (dmul val val)" a "Fin 0"]
  by (simp add: dotProduct_fp_def)

text \<open>
  The three roundings after the sum of squares: of the square root, of its square, and
  of the quotient. Each is within a factor \<open>1 \<plusminus> 2\<^sup>-\<^sup>5\<^sup>3\<close> of the exact value.
\<close>

lemma rounding_factors:
  fixes r x :: real
  assumes "\<bar>r - x\<bar> \<le> x / 2 ^ 53"
  shows "x * (1 - 1 / 2 ^ 53) \<le> r" and "r \<le> x * (1 + 1 / 2 ^ 53)"
proof -
  have e: "x * (1 - 1 / 2 ^ 53) = x - x / 2 ^ 53" "x * (1 + 1 / 2 ^ 53) = x + x / 2 ^ 53"
    by (simp_all only: algebra_simps mult_1_right times_divide_eq_right)
  show "x * (1 - 1 / 2 ^ 53) \<le> r" unfolding e(1) using assms by linarith
  show "r \<le> x * (1 + 1 / 2 ^ 53)" unfolding e(2) using assms by linarith
qed

lemma quotient_near_one:
  fixes s :: real
  assumes s: "2 powi (- 1021) \<le> s" "s \<le> 2 ^ 1022"
  shows "\<exists>m p q. round_double False (sqrt s) = Fin m \<and> 0 < m
            \<and> round_double False (m * m) = Fin p \<and> 0 < p
            \<and> round_double False (s / p) = Fin q \<and> 1 - 1 / 2 ^ 51 \<le> q"
proof -
  define L :: real where "L = 1 - 1 / 2 ^ 53"
  define U :: real where "U = 1 + 1 / 2 ^ 53"
  have L: "0 < L" "0 \<le> L" "1 / 2 \<le> L * L" "1 / (L * L * L) \<le> 2"
    and U: "0 < U" "0 \<le> U" "U * U \<le> 2" "1 / 2 \<le> 1 / (U * U * U)"
    and LU: "1 - 1 / 2 ^ 51 \<le> L / (U * U * U)"
    by (simp_all add: L_def U_def field_simps)
  have s0: "0 < s" using s(1) by (rule less_le_trans [rotated]) simp
  define t where "t = sqrt s"
  have t0: "0 < t" using s0 by (simp add: t_def)
  have tt: "t * t = s" using s0 by (simp add: t_def)
  have "(2 powi (- 511))\<^sup>2 = (2::real) powi (- 1022)"
    by (simp add: power_int_minus power_inverse [symmetric] power_mult [symmetric] field_simps)
  also have "\<dots> \<le> 2 powi (- 1021)" by (intro powi_mono) simp
  finally have "(2 powi (- 511))\<^sup>2 \<le> s" using s(1) by linarith
  then have "2 powi (- 511) \<le> t" unfolding t_def by (rule real_le_rsqrt)
  moreover have "(2::real) powi (- 1022) \<le> 2 powi (- 511)" by (intro powi_mono) simp
  ultimately have t1: "2 powi (- 1022) \<le> t" by linarith
  have "s \<le> (2 ^ 511)\<^sup>2" using s(2) by (simp add: power_mult [symmetric])
  then have "t \<le> 2 ^ 511" unfolding t_def using s0 by (intro real_le_lsqrt) simp_all
  also have "\<dots> \<le> (2::real) ^ 1023" by (intro power_increasing) simp_all
  finally have t2: "t \<le> 2 ^ 1023" .
  from round_double_normal [OF t1 t2] obtain m where
    m: "round_double False t = Fin m" "\<bar>m - t\<bar> \<le> t / 2 ^ 53" "0 < m" by blast
  from rounding_factors [OF m(2)] have mb: "t * L \<le> m" "m \<le> t * U"
    by (simp_all add: L_def U_def)
  have "(t * L) * (t * L) \<le> m * m"
    using mb(1) t0 L(2) m(3) by (intro mult_mono) simp_all
  then have m2l: "s * (L * L) \<le> m * m" using tt by (simp add: algebra_simps)
  have "m * m \<le> (t * U) * (t * U)"
    using mb(2) m(3) by (intro mult_mono) simp_all
  then have m2u: "m * m \<le> s * (U * U)" using tt by (simp add: algebra_simps)
  have "s * (1 / 2) \<le> s * (L * L)" using s0 L(3) by (intro mult_left_mono) simp_all
  moreover have "(2::real) powi (- 1022) = 2 powi (- 1021) * (1 / 2)"
    by (simp add: power_int_minus field_simps)
  moreover have "2 powi (- 1021) * (1 / 2) \<le> s * (1 / 2)"
    using s(1) by (intro mult_right_mono) simp_all
  ultimately have p1: "2 powi (- 1022) \<le> m * m" using m2l by linarith
  have "s * (U * U) \<le> s * 2" using s0 U(3) by (intro mult_left_mono) simp_all
  moreover have "s * 2 \<le> 2 ^ 1022 * 2" using s(2) by (intro mult_right_mono) simp_all
  moreover have "(2::real) ^ 1022 * 2 = 2 ^ 1023" by simp
  ultimately have p2: "m * m \<le> 2 ^ 1023" using m2u by linarith
  from round_double_normal [OF p1 p2] obtain p where
    p: "round_double False (m * m) = Fin p" "\<bar>p - m * m\<bar> \<le> m * m / 2 ^ 53" "0 < p" by blast
  from rounding_factors [OF p(2)] have pb: "m * m * L \<le> p" "p \<le> m * m * U"
    by (simp_all add: L_def U_def)
  have "s * (L * L) * L \<le> m * m * L" using m2l L(2) by (intro mult_right_mono)
  with pb(1) have pl: "s * (L * L * L) \<le> p" by (simp add: algebra_simps)
  have "m * m * U \<le> s * (U * U) * U" using m2u U(2) by (intro mult_right_mono)
  with pb(2) have pu: "p \<le> s * (U * U * U)" by (simp add: algebra_simps)
  have ql: "1 / (U * U * U) \<le> s / p"
  proof -
    have "s / (s * (U * U * U)) \<le> s / p"
      using pu p(3) s0 U(1) by (intro divide_left_mono mult_pos_pos) simp_all
    then show ?thesis using s0 by simp
  qed
  have qu: "s / p \<le> 1 / (L * L * L)"
  proof -
    have "0 < s * (L * L * L)" using s0 L(1) by simp
    then have "s / p \<le> s / (s * (L * L * L))"
      using pl p(3) s0 L(1) by (intro divide_left_mono mult_pos_pos) simp_all
    then show ?thesis using s0 by simp
  qed
  have "(2::real) powi (- 1022) \<le> 2 powi (- 1)" by (intro powi_mono) simp
  moreover have "(2::real) powi (- 1) = 1 / 2" by simp
  ultimately have q1: "2 powi (- 1022) \<le> s / p" using ql U(4) by linarith
  have "(2::real) \<le> 2 ^ 1023" using power_increasing [of 1 1023 "2::real"] by simp
  then have q2: "s / p \<le> 2 ^ 1023" using qu L(4) by linarith
  from round_double_normal [OF q1 q2] obtain q where
    q: "round_double False (s / p) = Fin q" "\<bar>q - s / p\<bar> \<le> s / p / 2 ^ 53" by blast
  from rounding_factors(1) [OF q(2)] have "s / p * L \<le> q" by (simp add: L_def)
  moreover have "1 / (U * U * U) * L \<le> s / p * L" using ql L(2) by (intro mult_right_mono)
  ultimately have "L / (U * U * U) \<le> q" by simp
  with LU have "1 - 1 / 2 ^ 51 \<le> q" by linarith
  with m(1,3) p(1,3) q(1) show ?thesis unfolding t_def by blast
qed

lemma angle_self_fp:
  assumes "dotProduct_fp a a = Inr (Fin s)" and "1 / 2 ^ 1021 \<le> s" and "s \<le> 2 ^ 1022"
  shows "\<exists>angle. angleBetweenVectors_fp a a = Inr (Fin angle) \<and> 0 \<le> angle
           \<and> angle \<le> 1 / 2 ^ 23"
proof -
  have sum: "foldl (\<lambda>sum val. dadd sum (dmul val val)) (Fin 0) a = Fin s"
    using assms(1) by (simp add: dotProduct_fp_self)
  have "(2::real) powi (- 1021) = 1 / 2 ^ 1021" by (simp add: power_int_minus field_simps)
  then have s1: "2 powi (- 1021) \<le> s" using assms(2) by simp
  have s0: "0 < s" using assms(2) by (rule less_le_trans [rotated]) simp
  from quotient_near_one [OF s1 assms(3)] obtain m p q where
    m: "round_double False (sqrt s) = Fin m" "0 < m"
    and p: "round_double False (m * m) = Fin p" "0 < p"
    and q: "round_double False (s / p) = Fin q" "1 - 1 / 2 ^ 51 \<le> q"
    by blast
  have mag: "vectorMagnitude_fp a = Fin m"
    using s0 by (simp add: vectorMagnitude_fp_def sum m(1))
  have nz: "\<not> is_zero (Fin m)" using m(2) by (simp add: is_zero_def)
  have prod: "dmul (Fin m) (Fin m) = Fin p" by (simp add: dmul_def p(1))
  have quot: "ddiv (Fin s) (Fin p) = Fin q"
    using s0 p(2) by (simp add: ddiv_def is_zero_def q(1))
  define c where "c = min q 1"
  have c: "1 - 1 / 2 ^ 51 \<le> c" "c \<le> 1" using q(2) by (simp_all add: c_def)
  have clamp: "clamp_cosine_fp (Fin q) = Fin c"
  proof (cases "1 < q")
    case True
    then show ?thesis by (simp add: clamp_above c_def)
  next
    case False
    moreover have "- 1 \<le> q" using q(2) by (rule order_trans [rotated]) simp
    ultimately show ?thesis by (simp add: clamp_inside c_def)
  qed
  have c1: "- 1 \<le> c" using c(1) by (rule order_trans [rotated]) simp
  have acos: "dacos (Fin c) = round_double False (arccos c)" using c1 c(2) by simp
  note a = arccos_near_one [OF c]
  have "(1::real) / 2 ^ 24 < 2 powi (- 24 + 1)" by (simp add: power_int_minus field_simps)
  from round_angle [OF a this] obtain r where
    r: "round_double False (arccos c) = Fin r" "0 \<le> r" "r \<le> 1 / 2 ^ 24 + 2 powi (- 24 - 53)"
    by auto
  have "(1::real) / 2 ^ 24 + 2 powi (- 24 - 53) \<le> 1 / 2 ^ 23"
    by (simp add: power_int_minus field_simps)
  with r(3) have "r \<le> 1 / 2 ^ 23" by linarith
  moreover have "angleBetweenVectors_fp a a = Inr (Fin r)"
    using nz c1 c(2)
    by (simp add: angleBetweenVectors_fp_def assms(1) mag prod quot clamp r(1))
  ultimately show ?thesis using r(2) by blast
qed

lemma dacos_clamp_NaN: "dacos (clamp_cosine_fp NaN) = NaN"
  by (simp add: clamp_NaN)

subsection \<open>Runs on given vectors\<close>

lemma round_double_zero [simp]: "round_double neg 0 = (if neg then NegZero else Fin 0)"
  by (simp add: round_double_def)

lemma round_double_at:
  assumes "2 powi e \<le> \<bar>x\<bar>" and "\<bar>x\<bar> < 2 powi (e + 1)"
    and "u = 2 powi (max e (- 1022) - 52)"
    and "\<bar>x / u - of_int n\<bar> < 1 / 2"
    and "n \<noteq> 0" and "\<bar>of_int n * u\<bar> < (2::real) ^ 1024"
  shows "round_double neg x = Fin (of_int n * u)"
  using round_double_near [OF assms(1,2), of n neg] assms(4,5,6) unfolding assms(3) by simp

lemma near_multiple:
  fixes y u n :: real
  assumes "(n - 1 / 2) * u < y" and "y < (n + 1 / 2) * u" and "0 < u"
  shows "\<bar>y / u - n\<bar> < 1 / 2"
proof -
  have "y / u < n + 1 / 2" using assms(2,3) by (simp add: pos_divide_less_eq)
  moreover have "n - 1 / 2 < y / u" using assms(1,3) by (simp add: pos_less_divide_eq)
  ultimately show ?thesis by linarith
qed

lemma dmul_one: "dmul (Fin 1) (Fin 1) = Fin 1"
proof -
  have "round_double False 1 = Fin (of_int (2 ^ 52) * (1 / 2 ^ 52))"
    by (rule round_double_at [where e = 0]) (simp_all add: power_int_minus field_simps)
  then show ?thesis by (simp add: dmul_def)
qed

lemma dadd_small:
  "dadd (Fin 0) (Fin 1) = Fin 1" "dadd (Fin 1) (Fin 1) = Fin 2" "dadd (Fin 2) (Fin 1) = Fin 3"
proof -
  have "round_double False 1 = Fin (of_int (2 ^ 52) * (1 / 2 ^ 52))"
    by (rule round_double_at [where e = 0]) (simp_all add: power_int_minus field_simps)
  then show "dadd (Fin 0) (Fin 1) = Fin 1" by (simp add: dadd_def)
  have "round_double False 2 = Fin (of_int (2 ^ 52) * (1 / 2 ^ 51))"
    by (rule round_double_at [where e = 1]) (simp_all add: power_int_minus field_simps)
  then show "dadd (Fin 1) (Fin 1) = Fin 2" by (simp add: dadd_def)
  have "round_double False 3 = Fin (of_int (3 * 2 ^ 51) * (1 / 2 ^ 51))"
    by (rule round_double_at [where e = 1]) (simp_all add: power_int_minus field_simps)
  then show "dadd (Fin 2) (Fin 1) = Fin 3" by (simp add: dadd_def)
qed

lemma dsqrt_three: "dsqrt (Fin 3) = Fin (7800463371553962 / 2 ^ 52)"
proof -
  have lo: "(7800463371553962 - 1 / 2) * (1 / 2 ^ 52) < sqrt 3"
    by (rule real_less_rsqrt) (simp add: power_divide)
  have hi: "sqrt 3 < (7800463371553962 + 1 / 2) * (1 / 2 ^ 52)"
    by (rule real_less_lsqrt) (simp_all add: power_divide)
  have "\<bar>sqrt 3 / (1 / 2 ^ 52) - 7800463371553962\<bar> < 1 / 2"
    using lo hi by (rule near_multiple) simp
  then have a: "\<bar>sqrt 3 / (1 / 2 ^ 52) - of_int 7800463371553962\<bar> < 1 / 2"
    by simp
  have b: "1 \<le> sqrt 3" "sqrt 3 < 2"
    by (simp_all add: real_le_rsqrt real_less_lsqrt)
  have "round_double False (sqrt 3) = Fin (of_int 7800463371553962 * (1 / 2 ^ 52))"
    using a b by (intro round_double_at [where e = 0]) (simp_all add: power_int_minus field_simps)
  then show ?thesis by simp
qed

lemma dmul_root_three:
  "dmul (Fin (7800463371553962 / 2 ^ 52)) (Fin (7800463371553962 / 2 ^ 52))
   = Fin (6755399441055743 / 2 ^ 51)"
proof -
  have "round_double False (7800463371553962 / 2 ^ 52 * (7800463371553962 / 2 ^ 52))
        = Fin (of_int 6755399441055743 * (1 / 2 ^ 51))"
    by (rule round_double_at [where e = 1]) (simp_all add: power_int_minus field_simps)
  then show ?thesis by (simp add: dmul_def)
qed

lemma ddiv_three:
  "ddiv (Fin 3) (Fin (6755399441055743 / 2 ^ 51)) = Fin (1 + 1 / 2 ^ 52)"
proof -
  have "round_double False (3 / (6755399441055743 / 2 ^ 51))
        = Fin (of_int (2 ^ 52 + 1) * (1 / 2 ^ 52))"
    by (rule round_double_at [where e = 0]) (simp_all add: power_int_minus field_simps)
  then show ?thesis by (simp add: ddiv_def is_zero_def field_simps)
qed

lemma dmul_underflow: "dmul (Fin (1 / 2 ^ 600)) (Fin (1 / 2 ^ 600)) = Fin 0"
proof -
  have "round_double False (1 / 2 ^ 600 * (1 / 2 ^ 600)) = Fin 0"
    by (rule round_double_underflow) (simp_all add: power_int_minus field_simps)
  then show ?thesis by (simp only: dmul_def sign_bit.simps is_finite.simps dval.simps) simp
qed

lemma dmul_overflow: "dmul (Fin (2 ^ 600)) (Fin (2 ^ 600)) = PosInf"
proof -
  have "round_double False (2 ^ 600 * 2 ^ 600) = PosInf"
    by (rule round_double_overflow) (simp add: power_add [symmetric])
  then show ?thesis by (simp only: dmul_def sign_bit.simps is_finite.simps dval.simps) simp
qed

lemma dmul_zero: "dmul (Fin 0) (Fin 0) = Fin 0"
  by (simp add: dmul_def)

lemma dadd_zero: "dadd (Fin 0) (Fin 0) = Fin 0" "dadd PosInf (Fin 0) = PosInf"
  "dadd (Fin 0) PosInf = PosInf" "dadd (Fin 3) (Fin 0) = Fin 3"
proof -
  have "round_double False 3 = Fin (of_int (3 * 2 ^ 51) * (1 / 2 ^ 51))"
    by (rule round_double_at [where e = 1]) (simp_all add: power_int_minus field_simps)
  then show "dadd (Fin 3) (Fin 0) = Fin 3" by (simp add: dadd_def)
qed (simp_all add: dadd_def)

lemma upt_two: "[0..<2] = [0, 1]" and upt_three: "[0..<3] = [0, 1, 2]"
  by (simp_all add: upt_conv_Cons)

lemma dotProduct_fp_two:
  "dotProduct_fp [x0, x1] [y0, y1] = Inr (dadd (dadd (Fin 0) (dmul x0 y0)) (dmul x1 y1))"
  by (simp add: dotProduct_fp_def upt_two)

lemma dotProduct_fp_three:
  "dotProduct_fp [x0, x1, x2] [y0, y1, y2]
   = Inr (dadd (dadd (dadd (Fin 0) (dmul x0 y0)) (dmul x1 y1)) (dmul x2 y2))"
  by (simp add: dotProduct_fp_def upt_three)

lemma vectorMagnitude_fp_two:
  "vectorMagnitude_fp [x0, x1] = dsqrt (dadd (dadd (Fin 0) (dmul x0 x0)) (dmul x1 x1))"
  by (simp add: vectorMagnitude_fp_def)

lemma vectorMagnitude_fp_three:
  "vectorMagnitude_fp [x0, x1, x2]
   = dsqrt (dadd (dadd (dadd (Fin 0) (dmul x0 x0)) (dmul x1 x1)) (dmul x2 x2))"
  by (simp add: vectorMagnitude_fp_def)

lemma dsqrt_zero: "dsqrt (Fin 0) = Fin 0"
  by simp

lemma angle_unfold:
  "dotProduct_fp a b = Inr dot \<Longrightarrow>
   angleBetweenVectors_fp a b =
     (if is_zero (vectorMagnitude_fp a) \<or> is_zero (vectorMagnitude_fp b)
      then Inl DegenerateInput
      else Inr (dacos (clamp_cosine_fp
                  (ddiv dot (dmul (vectorMagnitude_fp a) (vectorMagnitude_fp b))))))"
  by (simp add: angleBetweenVectors_fp_def Let_def)

text \<open>
  C9, as stated, fails on doubles. The squares of the entries underflow or overflow: for
  the nonzero vector \<open>[2\<^sup>-\<^sup>6\<^sup>0\<^sup>0, 0]\<close> the computed magnitude is 0 and the operation fails
  with the zero-vector error, and for \<open>[2\<^sup>6\<^sup>0\<^sup>0, 0]\<close> the dot product and the magnitudes are
  infinite, the quotient is NaN, the clamp hands NaN on, and the angle of the vector
  with itself is NaN.
\<close>

theorem angleBetweenVectors_out_of_range:
  "angleBetweenVectors_fp [Fin (1 / 2 ^ 600), Fin 0] [Fin (1 / 2 ^ 600), Fin 0]
     = Inl DegenerateInput
   \<and> Fin (1 / 2 ^ 600) \<noteq> Fin 0
   \<and> angleBetweenVectors_fp [Fin (2 ^ 600), Fin 0] [Fin (2 ^ 600), Fin 0] = Inr NaN"
proof -
  have m1: "vectorMagnitude_fp [Fin (1 / 2 ^ 600), Fin 0] = Fin 0"
    by (simp only: vectorMagnitude_fp_two dmul_underflow dmul_zero dadd_zero dsqrt_zero)
  have d1: "dotProduct_fp [Fin (1 / 2 ^ 600), Fin 0] [Fin (1 / 2 ^ 600), Fin 0] = Inr (Fin 0)"
    by (simp only: dotProduct_fp_two dmul_underflow dmul_zero dadd_zero)
  have 1: "angleBetweenVectors_fp [Fin (1 / 2 ^ 600), Fin 0] [Fin (1 / 2 ^ 600), Fin 0]
     = Inl DegenerateInput"
    by (simp only: angle_unfold [OF d1] m1) (simp add: is_zero_def)
  have m: "vectorMagnitude_fp [Fin (2 ^ 600), Fin 0] = PosInf"
    by (simp only: vectorMagnitude_fp_two dmul_overflow dmul_zero dadd_zero dsqrt.simps)
  have d: "dotProduct_fp [Fin (2 ^ 600), Fin 0] [Fin (2 ^ 600), Fin 0] = Inr PosInf"
    by (simp only: dotProduct_fp_two dmul_overflow dmul_zero dadd_zero)
  have 2: "angleBetweenVectors_fp [Fin (2 ^ 600), Fin 0] [Fin (2 ^ 600), Fin 0] = Inr NaN"
    by (simp only: angle_unfold [OF d] m) (simp add: is_zero_def dmul_def ddiv_def clamp_NaN)
  from 1 2 show ?thesis by simp
qed

text \<open>
  C9, amended, on doubles. For vectors of equal length the dot product is computed, and
  the operation fails with the degenerate-input error exactly when a computed magnitude
  is zero; otherwise it returns \<open>Math.acos\<close> of the clamped quotient. The clamp sends a
  quotient above 1 to 1 and one below -1 to -1, the infinities included, and leaves
  every other number as it is, so unless the quotient is NaN the argument of the arc
  cosine lies in \<open>[-1, 1]\<close> and the angle is a number between 0 and \<open>pi\<close>, up to its
  rounding; a NaN quotient gives the angle NaN. When the computed sum of squares of
  \<open>a\<close> lies between \<open>2\<^sup>-\<^sup>1\<^sup>0\<^sup>2\<^sup>1\<close> and \<open>2\<^sup>1\<^sup>0\<^sup>2\<^sup>2\<close>, the angle between \<open>a\<close> and itself is a number
  between 0 and \<open>2\<^sup>-\<^sup>2\<^sup>3\<close>.
\<close>

theorem angleBetweenVectors_clamped:
  assumes "length a = length b"
  shows "\<exists>dot. dotProduct_fp a b = Inr dot
       \<and> (if is_zero (vectorMagnitude_fp a) \<or> is_zero (vectorMagnitude_fp b)
          then angleBetweenVectors_fp a b = Inl DegenerateInput
          else angleBetweenVectors_fp a b =
                 Inr (dacos (clamp_cosine_fp
                        (ddiv dot (dmul (vectorMagnitude_fp a) (vectorMagnitude_fp b))))))
       \<and> (\<forall>q. (dless (Fin 1) q \<longrightarrow> clamp_cosine_fp q = Fin 1)
              \<and> (dless q (Fin (- 1)) \<longrightarrow> clamp_cosine_fp q = Fin (- 1))
              \<and> (q \<noteq> NaN \<and> \<not> dless (Fin 1) q \<and> \<not> dless q (Fin (- 1)) \<longrightarrow>
                   clamp_cosine_fp q = q)
              \<and> (q \<noteq> NaN \<longrightarrow>
                   (\<exists>angle. dacos (clamp_cosine_fp q) = Fin angle \<and> 0 \<le> angle
                       \<and> angle \<le> pi + 1 / 2 ^ 52))
              \<and> (q = NaN \<longrightarrow> dacos (clamp_cosine_fp q) = NaN))
       \<and> (\<forall>s. a = b \<and> dot = Fin s \<and> 1 / 2 ^ 1021 \<le> s \<and> s \<le> 2 ^ 1022 \<longrightarrow>
              (\<exists>angle. angleBetweenVectors_fp a b = Inr (Fin angle) \<and> 0 \<le> angle
                  \<and> angle \<le> 1 / 2 ^ 23))"
proof -
  define dot where "dot = foldl (\<lambda>sum i. dadd sum (dmul (a ! i) (b ! i))) (Fin 0) [0..<length a]"
  have d: "dotProduct_fp a b = Inr dot" using assms by (simp add: dotProduct_fp_def dot_def)
  have r: "if is_zero (vectorMagnitude_fp a) \<or> is_zero (vectorMagnitude_fp b)
          then angleBetweenVectors_fp a b = Inl DegenerateInput
          else angleBetweenVectors_fp a b =
                 Inr (dacos (clamp_cosine_fp
                        (ddiv dot (dmul (vectorMagnitude_fp a) (vectorMagnitude_fp b)))))"
    by (simp add: angleBetweenVectors_fp_def d Let_def)
  have c: "(dless (Fin 1) q \<longrightarrow> clamp_cosine_fp q = Fin 1)
              \<and> (dless q (Fin (- 1)) \<longrightarrow> clamp_cosine_fp q = Fin (- 1))
              \<and> (q \<noteq> NaN \<and> \<not> dless (Fin 1) q \<and> \<not> dless q (Fin (- 1)) \<longrightarrow>
                   clamp_cosine_fp q = q)
              \<and> (q \<noteq> NaN \<longrightarrow>
                   (\<exists>angle. dacos (clamp_cosine_fp q) = Fin angle \<and> 0 \<le> angle
                       \<and> angle \<le> pi + 1 / 2 ^ 52))
              \<and> (q = NaN \<longrightarrow> dacos (clamp_cosine_fp q) = NaN)" for q
    using clamp_above [of q] clamp_below [of q] clamp_inside [of q] dacos_clamped [of q]
      dacos_clamp_NaN
    by blast
  have s: "\<exists>angle. angleBetweenVectors_fp a b = Inr (Fin angle) \<and> 0 \<le> angle
                  \<and> angle \<le> 1 / 2 ^ 23"
    if "a = b \<and> dot = Fin s \<and> 1 / 2 ^ 1021 \<le> s \<and> s \<le> 2 ^ 1022" for s
    using that d angle_self_fp [of a s] by auto
  show ?thesis using d r c s by blast
qed

theorem angleBetweenVectors_clamped_witness:
  "length [Fin 1, Fin 1, Fin 1] = length [Fin 1, Fin 1, Fin 1]
   \<and> dotProduct_fp [Fin 1, Fin 1, Fin 1] [Fin 1, Fin 1, Fin 1] = Inr (Fin 3)
   \<and> vectorMagnitude_fp [Fin 1, Fin 1, Fin 1] = Fin (7800463371553962 / 2 ^ 52)
   \<and> ddiv (Fin 3) (dmul (vectorMagnitude_fp [Fin 1, Fin 1, Fin 1])
                         (vectorMagnitude_fp [Fin 1, Fin 1, Fin 1])) = Fin (1 + 1 / 2 ^ 52)
   \<and> dless (Fin 1) (Fin (1 + 1 / 2 ^ 52))
   \<and> clamp_cosine_fp (Fin (1 + 1 / 2 ^ 52)) = Fin 1
   \<and> angleBetweenVectors_fp [Fin 1, Fin 1, Fin 1] [Fin 1, Fin 1, Fin 1] = Inr (Fin 0)
   \<and> 1 / 2 ^ 1021 \<le> (3::real) \<and> (3::real) \<le> 2 ^ 1022
   \<and> (\<exists>angle. angleBetweenVectors_fp [Fin 1, Fin 1, Fin 1] [Fin 1, Fin 1, Fin 1]
                   = Inr (Fin angle) \<and> 0 \<le> angle \<and> angle \<le> 1 / 2 ^ 23)
   \<and> length [Fin 1, Fin 0] = length [Fin 0, Fin 0]
   \<and> is_zero (vectorMagnitude_fp [Fin 0, Fin 0])
   \<and> angleBetweenVectors_fp [Fin 1, Fin 0] [Fin 0, Fin 0] = Inl DegenerateInput"
proof -
  let ?a = "[Fin 1, Fin 1, Fin 1]"
  have l: "length ?a = length ?a" by simp
  have d: "dotProduct_fp ?a ?a = Inr (Fin 3)"
    by (simp only: dotProduct_fp_three dmul_one dadd_small)
  have m: "vectorMagnitude_fp ?a = Fin (7800463371553962 / 2 ^ 52)"
    by (simp only: vectorMagnitude_fp_three dmul_one dadd_small dsqrt_three)
  have q: "ddiv (Fin 3) (dmul (vectorMagnitude_fp ?a) (vectorMagnitude_fp ?a))
           = Fin (1 + 1 / 2 ^ 52)"
    by (simp only: m dmul_root_three ddiv_three)
  have over: "dless (Fin 1) (Fin (1 + 1 / 2 ^ 52))" by simp
  have nz: "\<not> (is_zero (vectorMagnitude_fp ?a) \<or> is_zero (vectorMagnitude_fp ?a))"
    by (simp add: m is_zero_def)
  from angleBetweenVectors_clamped [OF l] obtain dot where
    t: "dotProduct_fp ?a ?a = Inr dot"
      "if is_zero (vectorMagnitude_fp ?a) \<or> is_zero (vectorMagnitude_fp ?a)
       then angleBetweenVectors_fp ?a ?a = Inl DegenerateInput
       else angleBetweenVectors_fp ?a ?a =
              Inr (dacos (clamp_cosine_fp
                     (ddiv dot (dmul (vectorMagnitude_fp ?a) (vectorMagnitude_fp ?a)))))"
      "\<And>q. dless (Fin 1) q \<longrightarrow> clamp_cosine_fp q = Fin 1"
      "\<And>s. ?a = ?a \<and> dot = Fin s \<and> 1 / 2 ^ 1021 \<le> s \<and> s \<le> 2 ^ 1022 \<longrightarrow>
             (\<exists>angle. angleBetweenVectors_fp ?a ?a = Inr (Fin angle) \<and> 0 \<le> angle
                 \<and> angle \<le> 1 / 2 ^ 23)"
    by blast
  have dot: "dot = Fin 3" using t(1) d by simp
  have range: "1 / 2 ^ 1021 \<le> (3::real)" "(3::real) \<le> 2 ^ 1022"
  proof -
    have "1 / 2 ^ 1021 \<le> (1::real)" by simp
    then show "1 / 2 ^ 1021 \<le> (3::real)" by linarith
    have "(2::real) ^ 2 \<le> 2 ^ 1022" by (rule power_increasing) simp_all
    then show "(3::real) \<le> 2 ^ 1022" by simp
  qed
  have near: "\<exists>angle. angleBetweenVectors_fp ?a ?a = Inr (Fin angle) \<and> 0 \<le> angle
                 \<and> angle \<le> 1 / 2 ^ 23"
    using t(4) [of 3] dot range by blast
  have c: "clamp_cosine_fp (Fin (1 + 1 / 2 ^ 52)) = Fin 1" using t(3) over by blast
  have "angleBetweenVectors_fp ?a ?a =
          Inr (dacos (clamp_cosine_fp
                 (ddiv (Fin 3) (dmul (vectorMagnitude_fp ?a) (vectorMagnitude_fp ?a)))))"
    using t(2) nz unfolding dot by (simp only: if_False)
  then have r: "angleBetweenVectors_fp ?a ?a = Inr (Fin 0)"
    by (simp only: q c) simp
  let ?b = "[Fin 1, Fin 0]" and ?z = "[Fin 0, Fin 0]"
  have l2: "length ?b = length ?z" by simp
  have z: "is_zero (vectorMagnitude_fp ?z)"
    by (simp only: vectorMagnitude_fp_two dmul_zero dadd_zero dsqrt_zero) (simp add: is_zero_def)
  from angleBetweenVectors_clamped [OF l2] z
  have r2: "angleBetweenVectors_fp ?b ?z = Inl DegenerateInput" by auto
  from l d m q over c r range near l2 z r2 show ?thesis by (intro conjI)
qed

section \<open>The determinant of the transpose\<close>

lemma skip_0 [simp]: "skip 0 c = Suc c"
  by (simp add: skip_def)

lemma skip_Suc_0 [simp]: "skip (Suc j) 0 = 0"
  by (simp add: skip_def)

lemma skip_Suc_Suc [simp]: "skip (Suc j) (Suc c) = Suc (skip j c)"
  by (simp add: skip_def)

lemma skip_less: "c < n \<Longrightarrow> skip j c < Suc n"
  by (simp add: skip_def)

lemma laplace_cong:
  "(\<And>i j. i < n \<Longrightarrow> j < n \<Longrightarrow> f i j = g i j) \<Longrightarrow> laplace n f = laplace n g"
proof (induction n arbitrary: f g)
  case 0
  show ?case by simp
next
  case (Suc n)
  have "\<And>j. j \<le> n \<Longrightarrow>
          laplace n (\<lambda>r c. f (Suc r) (skip j c)) = laplace n (\<lambda>r c. g (Suc r) (skip j c))"
    by (rule Suc.IH) (simp add: Suc.prems skip_less)
  moreover have "\<And>j. j \<le> n \<Longrightarrow> f 0 j = g 0 j"
    by (simp add: Suc.prems)
  ultimately show ?case by simp
qed

lemma laplace_first_column:
  "laplace (Suc n) f =
     (\<Sum>i\<le>n. (- 1) ^ i * f i 0 * laplace n (\<lambda>r c. f (skip i r) (Suc c)))"
proof (induction n arbitrary: f)
  case 0
  show ?case by simp
next
  case (Suc m)
  let ?sub = "\<lambda>i j. laplace m (\<lambda>r c. f (Suc (skip i r)) (Suc (skip j c)))"
  let ?corner = "f 0 0 * laplace (Suc m) (\<lambda>r c. f (Suc r) (Suc c))"
  have row: "laplace (Suc (Suc m)) f =
        ?corner + (\<Sum>j\<le>m. (- 1) ^ Suc j * f 0 (Suc j) *
                     (\<Sum>i\<le>m. (- 1) ^ i * f (Suc i) 0 * ?sub i j))"
  proof -
    have "laplace (Suc (Suc m)) f =
          (\<Sum>j\<le>Suc m. (- 1) ^ j * f 0 j * laplace (Suc m) (\<lambda>r c. f (Suc r) (skip j c)))"
      by (simp only: laplace.simps)
    also have "\<dots> = ?corner +
          (\<Sum>j\<le>m. (- 1) ^ Suc j * f 0 (Suc j) *
              laplace (Suc m) (\<lambda>r c. f (Suc r) (skip (Suc j) c)))"
      by (subst sum.atMost_Suc_shift) simp
    also have "\<dots> = ?corner + (\<Sum>j\<le>m. (- 1) ^ Suc j * f 0 (Suc j) *
                     (\<Sum>i\<le>m. (- 1) ^ i * f (Suc i) 0 * ?sub i j))"
      by (subst Suc.IH) simp
    finally show ?thesis .
  qed
  have col: "(\<Sum>i\<le>Suc m. (- 1) ^ i * f i 0 * laplace (Suc m) (\<lambda>r c. f (skip i r) (Suc c))) =
        ?corner + (\<Sum>i\<le>m. (- 1) ^ Suc i * f (Suc i) 0 *
                     (\<Sum>j\<le>m. (- 1) ^ j * f 0 (Suc j) * ?sub i j))"
  proof -
    have "(\<Sum>i\<le>Suc m. (- 1) ^ i * f i 0 * laplace (Suc m) (\<lambda>r c. f (skip i r) (Suc c))) =
          ?corner + (\<Sum>i\<le>m. (- 1) ^ Suc i * f (Suc i) 0 *
                       laplace (Suc m) (\<lambda>r c. f (skip (Suc i) r) (Suc c)))"
      by (subst sum.atMost_Suc_shift) simp
    also have "\<dots> = ?corner + (\<Sum>i\<le>m. (- 1) ^ Suc i * f (Suc i) 0 *
                     (\<Sum>j\<le>m. (- 1) ^ j * f 0 (Suc j) * ?sub i j))"
      by (simp only: laplace.simps skip_Suc_0 skip_Suc_Suc)
    finally show ?thesis .
  qed
  have "(\<Sum>j\<le>m. (- 1) ^ Suc j * f 0 (Suc j) * (\<Sum>i\<le>m. (- 1) ^ i * f (Suc i) 0 * ?sub i j)) =
        (\<Sum>j\<le>m. \<Sum>i\<le>m. (- 1) ^ Suc i * f (Suc i) 0 * ((- 1) ^ j * f 0 (Suc j) * ?sub i j))"
    by (simp add: sum_distrib_left mult_ac)
  also have "\<dots> = (\<Sum>i\<le>m. \<Sum>j\<le>m. (- 1) ^ Suc i * f (Suc i) 0 * ((- 1) ^ j * f 0 (Suc j) * ?sub i j))"
    by (rule sum.swap)
  also have "\<dots> = (\<Sum>i\<le>m. (- 1) ^ Suc i * f (Suc i) 0 *
                     (\<Sum>j\<le>m. (- 1) ^ j * f 0 (Suc j) * ?sub i j))"
    by (simp add: sum_distrib_left)
  finally show ?case using row col by simp
qed

lemma laplace_transpose: "laplace n (\<lambda>i j. f j i) = laplace n f"
proof (induction n arbitrary: f)
  case 0
  show ?case by simp
next
  case (Suc n)
  have "laplace (Suc n) (\<lambda>i j. f j i) =
        (\<Sum>j\<le>n. (- 1) ^ j * f j 0 * laplace n (\<lambda>r c. f (skip j c) (Suc r)))"
    by simp
  also have "\<dots> = (\<Sum>j\<le>n. (- 1) ^ j * f j 0 * laplace n (\<lambda>r c. f (skip j r) (Suc c)))"
    by (simp add: Suc.IH [of "\<lambda>r c. f (skip _ r) (Suc c)"])
  also have "\<dots> = laplace (Suc n) f"
    by (rule laplace_first_column [symmetric])
  finally show ?case .
qed

lemma valid_square:
  "isValidMatrix A \<Longrightarrow> length A = length (A ! 0) \<Longrightarrow> is_square (length A) A \<and> 0 < length A"
  by (auto simp add: isValidMatrix_def is_square_def)

lemma is_square_row: "is_square n m \<Longrightarrow> i < n \<Longrightarrow> length (m ! i) = n"
  by (simp add: is_square_def list_all_length)

lemma filter_neq_upt: "i < m \<Longrightarrow> filter (\<lambda>j. j \<noteq> i) [0..<m] = [0..<i] @ [Suc i..<m]"
proof -
  assume "i < m"
  then have "[0..<m] = [0..<i] @ [i] @ [Suc i..<m]"
    by (metis append_Cons append_Nil less_imp_le_nat upt_add_eq_append upt_conv_Cons
        le_add_diff_inverse zero_le)
  moreover have "filter (\<lambda>j. j \<noteq> i) [0..<i] = [0..<i]" by (rule filter_True) simp
  moreover have "filter (\<lambda>j. j \<noteq> i) [Suc i..<m] = [Suc i..<m]" by (rule filter_True) simp
  ultimately show ?thesis by simp
qed

lemma filter_neq_nth:
  assumes "i < Suc n" and "c < n"
  shows "filter (\<lambda>j. j \<noteq> i) [0..<Suc n] ! c = skip i c"
  using assms by (auto simp add: filter_neq_upt nth_append skip_def simp del: upt_Suc)

lemma filter_neq_length:
  assumes "i < Suc n"
  shows "length (filter (\<lambda>j. j \<noteq> i) [0..<Suc n]) = n"
  using assms by (auto simp add: filter_neq_upt simp del: upt_Suc)

lemma minor_row:
  assumes "is_square (Suc n) m" and "r < n"
  shows "minor m i ! r = map (\<lambda>j. m ! Suc r ! j) (filter (\<lambda>j. j \<noteq> i) [0..<Suc n])"
proof -
  have "length (tl m) = n" using assms(1) by (simp add: is_square_def)
  then have "tl m ! r = m ! Suc r" using assms(2) by (simp add: nth_tl)
  moreover have "length (m ! Suc r) = Suc n"
    using assms by (simp add: is_square_row)
  ultimately show ?thesis
    using assms(2) \<open>length (tl m) = n\<close> by (simp add: minor_def del: upt_Suc)
qed

lemma minor_nth:
  assumes "is_square (Suc n) m" and "i < Suc n" and "r < n" and "c < n"
  shows "minor m i ! r ! c = m ! Suc r ! skip i c"
  using assms filter_neq_length [OF assms(2)]
  by (simp add: minor_row filter_neq_nth del: upt_Suc)

lemma minor_square:
  assumes "is_square (Suc n) m" and "i < Suc n"
  shows "is_square n (minor m i)"
proof -
  have "length (minor m i) = n" using assms(1) by (simp add: is_square_def minor_def)
  moreover have "\<And>r. r < n \<Longrightarrow> length (minor m i ! r) = n"
    using assms by (simp add: minor_row filter_neq_length del: upt_Suc)
  ultimately show ?thesis by (simp add: is_square_def list_all_length)
qed

lemma foldl_cofactors:
  fixes z :: real and g :: "nat \<Rightarrow> error + real"
  assumes "\<And>i. i \<in> set xs \<Longrightarrow> g i = Inr (h i)"
  shows "foldl (\<lambda>det i. case det of
                     Inl e \<Rightarrow> Inl e
                   | Inr d \<Rightarrow> (case g i of
                                Inl e \<Rightarrow> Inl e
                              | Inr sub \<Rightarrow> Inr (d + c i * sub)))
               (Inr z) xs = Inr (z + (\<Sum>i\<leftarrow>xs. c i * h i))"
  using assms by (induction xs arbitrary: z) (simp_all add: add.assoc)

lemma determinant_laplace:
  "is_square n m \<Longrightarrow> 0 < n \<Longrightarrow> determinant m = Inr (laplace n (\<lambda>i j. m ! i ! j))"
proof (induction n arbitrary: m)
  case 0
  then show ?case by simp
next
  case (Suc n)
  have len: "length m = Suc n" "m \<noteq> []" "length (m ! 0) = Suc n"
    using Suc.prems(1) by (auto simp add: is_square_def list_all_length)
  consider "n = 0" | "n = 1" | "2 \<le> n" by linarith
  then show ?case
  proof cases
    case 1
    then show ?thesis using len by (subst determinant.simps) simp
  next
    case 2
    then show ?thesis using len
      by (subst determinant.simps) (simp add: numeral_2_eq_2 skip_def)
  next
    case 3
    have sub: "determinant (minor m i) = Inr (laplace n (\<lambda>r c. m ! Suc r ! skip i c))"
      if "i \<in> set [0..<Suc n]" for i
    proof -
      from that have i: "i < Suc n" by (simp del: upt_Suc)
      have "determinant (minor m i) = Inr (laplace n (\<lambda>r c. minor m i ! r ! c))"
        using 3 by (intro Suc.IH minor_square [OF Suc.prems(1) i]) simp
      also have "laplace n (\<lambda>r c. minor m i ! r ! c) = laplace n (\<lambda>r c. m ! Suc r ! skip i c)"
        by (rule laplace_cong) (simp add: minor_nth [OF Suc.prems(1) i])
      finally show ?thesis .
    qed
    have "determinant m =
          foldl (\<lambda>det i. case det of
                     Inl e \<Rightarrow> Inl e
                   | Inr d \<Rightarrow> (case determinant (minor m i) of
                                Inl e \<Rightarrow> Inl e
                              | Inr sub \<Rightarrow> Inr (d + m ! 0 ! i * (- 1) ^ i * sub)))
                 (Inr 0) [0..<Suc n]"
      using 3 len by (subst determinant.simps) (simp del: upt_Suc)
    also have "\<dots> = Inr (0 + (\<Sum>i\<leftarrow>[0..<Suc n]. m ! 0 ! i * (- 1) ^ i *
                                laplace n (\<lambda>r c. m ! Suc r ! skip i c)))"
      by (rule foldl_cofactors) (rule sub)
    also have "(\<Sum>i\<leftarrow>[0..<Suc n]. m ! 0 ! i * (- 1) ^ i *
                   laplace n (\<lambda>r c. m ! Suc r ! skip i c)) =
               laplace (Suc n) (\<lambda>i j. m ! i ! j)"
      by (simp add: interv_sum_list_conv_sum_set_nat atLeast0LessThan lessThan_Suc_atMost mult_ac
          del: upt_Suc)
    finally show ?thesis by simp
  qed
qed

lemma transpose_square:
  assumes "is_square n m" and "0 < n"
  shows "\<exists>t. transpose_mat m = Inr t \<and> is_square n t \<and> (\<forall>i<n. \<forall>j<n. t ! i ! j = m ! j ! i)"
proof -
  have len: "length m = n" "m \<noteq> []" "length (m ! 0) = n"
    using assms by (auto simp add: is_square_def list_all_length)
  let ?t = "map (\<lambda>colIndex. map (\<lambda>row. row ! colIndex) m) [0..<n]"
  have "transpose_mat m = Inr ?t" using len by (simp add: transpose_mat_def)
  moreover have "is_square n ?t" using len by (simp add: is_square_def list_all_length)
  moreover have "\<forall>i<n. \<forall>j<n. ?t ! i ! j = m ! j ! i" using len by simp
  ultimately show ?thesis by blast
qed

text \<open>
  C10. For every square matrix, in exact arithmetic, the determinant of the transpose
  equals the determinant of the matrix: both calls succeed with the same number.
\<close>

theorem determinant_transpose:
  assumes "isValidMatrix A" and "length A = length (A ! 0)"
  shows "\<exists>t d. transpose_mat A = Inr t \<and> determinant A = Inr d \<and> determinant t = Inr d"
proof -
  let ?n = "length A"
  have sq: "is_square ?n A" "0 < ?n" using valid_square [OF assms] by simp_all
  obtain t where t: "transpose_mat A = Inr t" "is_square ?n t"
      "\<forall>i<?n. \<forall>j<?n. t ! i ! j = A ! j ! i"
    using transpose_square [OF sq] by blast
  have "determinant t = Inr (laplace ?n (\<lambda>i j. t ! i ! j))"
    using t(2) sq(2) by (rule determinant_laplace)
  also have "laplace ?n (\<lambda>i j. t ! i ! j) = laplace ?n (\<lambda>i j. A ! j ! i)"
    by (rule laplace_cong) (simp add: t(3))
  also have "\<dots> = laplace ?n (\<lambda>i j. A ! i ! j)"
    by (rule laplace_transpose)
  finally have "determinant t = determinant A"
    using determinant_laplace [OF sq] by simp
  then show ?thesis using t(1) determinant_laplace [OF sq] by simp
qed

theorem determinant_transpose_witness:
  "isValidMatrix [[1, 2, 3], [4, 5, 6], [7, 8, 10]]
   \<and> length [[1, 2, 3], [4, 5, 6], [7, 8, 10 :: real]] = length ([[1, 2, 3], [4, 5, 6], [7, 8, 10 :: real]] ! 0)
   \<and> transpose_mat [[1, 2, 3], [4, 5, 6], [7, 8, 10]] = Inr [[1, 4, 7], [2, 5, 8], [3, 6, 10]]
   \<and> determinant [[1, 2, 3], [4, 5, 6], [7, 8, 10]] = Inr (- 3)
   \<and> determinant [[1, 4, 7], [2, 5, 8], [3, 6, 10]] = Inr (- 3)"
proof -
  let ?A = "[[1, 2, 3], [4, 5, 6], [7, 8, 10]] :: matrix"
  have v: "isValidMatrix ?A" "length ?A = length (?A ! 0)"
    by (simp_all add: isValidMatrix_def)
  have t: "transpose_mat ?A = Inr [[1, 4, 7], [2, 5, 8], [3, 6, 10]]" by code_simp
  have d: "determinant ?A = Inr (- 3)" by code_simp
  from determinant_transpose [OF v] t d
  have "determinant [[1, 4, 7], [2, 5, 8], [3, 6, 10]] = Inr (- 3)" by auto
  with v t d show ?thesis by simp
qed

section \<open>The Gaussian trace and the row-reduction engine\<close>

lemma extends_refl: "extends st st"
  by (cases st) (simp add: extends_def)

lemma extends_trans: "extends a b \<Longrightarrow> extends b c \<Longrightarrow> extends a c"
proof -
  assume ab: "extends a b" and bc: "extends b c"
  obtain r1 s1 i1 where a: "a = (r1, s1, i1)" by (cases a)
  obtain r2 s2 i2 where b: "b = (r2, s2, i2)" by (cases b)
  obtain r3 s3 i3 where c: "c = (r3, s3, i3)" by (cases c)
  from ab a b obtain e1 where e1: "s2 = s1 @ e1" "i2 = i1 + length e1"
      "map step_id e1 = [i1..<i1 + length e1]"
      "list_all (\<lambda>s. row_operation (step_description s)) e1"
    by (auto simp: extends_def)
  from bc b c obtain e2 where e2: "s3 = s2 @ e2" "i3 = i2 + length e2"
      "map step_id e2 = [i2..<i2 + length e2]"
      "list_all (\<lambda>s. row_operation (step_description s)) e2"
    by (auto simp: extends_def)
  have "[i1..<i1 + length e1 + length e2] = [i1..<i1 + length e1] @ [i1 + length e1..<i1 + length e1 + length e2]"
    using upt_add_eq_append [of i1 "i1 + length e1" "length e2"] by simp
  then have "s3 = s1 @ (e1 @ e2) \<and> i3 = i1 + length (e1 @ e2)
      \<and> map step_id (e1 @ e2) = [i1..<i1 + length (e1 @ e2)]
      \<and> list_all (\<lambda>s. row_operation (step_description s)) (e1 @ e2)"
    using e1 e2 by (simp add: add.assoc)
  then show ?thesis unfolding a c extends_def by blast
qed

lemma extends_one:
  "row_operation (step_description s) \<Longrightarrow> step_id s = sid \<Longrightarrow>
   extends (r, steps, sid) (r', steps @ [s], Suc sid)"
  unfolding extends_def by (simp add: exI [of _ "[s]"])

lemma trace_swap_extends: "extends st (trace_swap p m st)"
  by (cases st) (simp add: trace_swap_def Let_def extends_one extends_refl)

lemma trace_scale_extends: "extends st (trace_scale p col cols st)"
  by (cases st) (simp add: trace_scale_def Let_def extends_one extends_refl)

lemma trace_eliminate_fold_extends:
  "extends st (foldl (\<lambda>(res, steps, stepId) i.
              if i \<noteq> pivotRow \<and> \<bar>res ! i ! col\<bar> > tol then
                let factor = res ! i ! col;
                    res' = res[i := subtract_row (res ! i) factor (res ! pivotRow) cols]
                in (res',
                    steps @ [\<lparr>step_id = stepId,
                              step_description = EliminateRow (i + 1) factor (pivotRow + 1),
                              step_matrix = res',
                              step_operation = Some (EliminateRow (i + 1) factor (pivotRow + 1)),
                              step_highlight = Some \<lparr>hl_row = Some i, hl_col = Some col,
                                                     hl_element = None\<rparr>\<rparr>],
                    Suc stepId)
              else (res, steps, stepId)) st xs)"
proof (induction xs arbitrary: st)
  case Nil
  show ?case by (simp add: extends_refl)
next
  case (Cons x xs)
  obtain r s i where st: "st = (r, s, i)" by (cases st)
  show ?case
    unfolding st foldl_Cons
    by (rule extends_trans [OF _ Cons.IH]) (simp add: Let_def extends_one extends_refl)
qed

lemma trace_eliminate_extends: "extends st (trace_eliminate_column p col rows cols st)"
  unfolding trace_eliminate_column_def by (rule trace_eliminate_fold_extends)

lemma gaussian_loop_done:
  assumes "\<not> (col < cols \<and> p < rows)"
  shows "gaussian_loop rows cols col p st = st"
  by (subst gaussian_loop.simps) (simp add: assms)

lemma gaussian_loop_skip:
  assumes "col < cols \<and> p < rows"
    and "\<bar>fst st ! find_max_row (fst st) col p rows ! col\<bar> < tol"
  shows "gaussian_loop rows cols col p st = gaussian_loop rows cols (Suc col) p st"
  by (subst gaussian_loop.simps) (simp add: assms Let_def)

lemma gaussian_loop_pivot:
  assumes "col < cols \<and> p < rows"
    and "\<not> \<bar>fst st ! find_max_row (fst st) col p rows ! col\<bar> < tol"
  shows "gaussian_loop rows cols col p st =
         gaussian_loop rows cols (Suc col) (Suc p)
           (trace_eliminate_column p col rows cols
              (trace_scale p col cols (trace_swap p (find_max_row (fst st) col p rows) st)))"
  by (subst gaussian_loop.simps) (simp add: assms Let_def)

lemma rref_loop_done:
  assumes "\<not> (col < cols \<and> p < rows)"
  shows "rref_loop rows cols col p result = result"
  by (subst rref_loop.simps) (simp add: assms)

lemma rref_loop_skip:
  assumes "col < cols \<and> p < rows"
    and "\<bar>result ! find_max_row result col p rows ! col\<bar> < tol"
  shows "rref_loop rows cols col p result = rref_loop rows cols (Suc col) p result"
  by (subst rref_loop.simps) (simp add: assms Let_def)

lemma rref_loop_pivot:
  assumes "col < cols \<and> p < rows"
    and "\<not> \<bar>result ! find_max_row result col p rows ! col\<bar> < tol"
  shows "rref_loop rows cols col p result =
         rref_loop rows cols (Suc col) (Suc p)
           (eliminate_column
              ((swap_rows result p (find_max_row result col p rows))
                 [p := scale_row (swap_rows result p (find_max_row result col p rows) ! p)
                         (swap_rows result p (find_max_row result col p rows) ! p ! col) cols])
              p col rows cols)"
  by (subst rref_loop.simps) (simp add: assms Let_def)

lemma pivots_scaled_skip:
  assumes "col < cols \<and> p < rows"
    and "\<bar>result ! find_max_row result col p rows ! col\<bar> < tol"
  shows "pivots_scaled rows cols col p result = pivots_scaled rows cols (Suc col) p result"
  by (subst pivots_scaled.simps) (simp add: assms Let_def)

lemma pivots_scaled_pivot:
  assumes "col < cols \<and> p < rows"
    and "\<not> \<bar>result ! find_max_row result col p rows ! col\<bar> < tol"
  shows "pivots_scaled rows cols col p result =
         ((swap_rows result p (find_max_row result col p rows) ! p ! col = 1
           \<or> \<bar>swap_rows result p (find_max_row result col p rows) ! p ! col - 1\<bar> > tol)
          \<and> pivots_scaled rows cols (Suc col) (Suc p)
           (eliminate_column
              ((swap_rows result p (find_max_row result col p rows))
                 [p := scale_row (swap_rows result p (find_max_row result col p rows) ! p)
                         (swap_rows result p (find_max_row result col p rows) ! p ! col) cols])
              p col rows cols))"
  by (subst pivots_scaled.simps) (simp add: assms Let_def)

lemma gaussian_loop_extends: "extends st (gaussian_loop rows cols col p st)"
proof (induction rows cols col p st rule: gaussian_loop.induct)
  case (1 rows cols col p st)
  show ?case
  proof (cases "col < cols \<and> p < rows")
    case False
    show ?thesis by (simp only: gaussian_loop_done [OF False] extends_refl)
  next
    case True
    show ?thesis
    proof (cases "\<bar>fst st ! find_max_row (fst st) col p rows ! col\<bar> < tol")
      case small: True
      show ?thesis
        using "1.IH"(1) [OF True refl small]
        by (simp only: gaussian_loop_skip [OF True small])
    next
      case big: False
      let ?next = "trace_eliminate_column p col rows cols
                     (trace_scale p col cols
                        (trace_swap p (find_max_row (fst st) col p rows) st))"
      have "extends st ?next"
        by (rule extends_trans [OF trace_swap_extends
                   extends_trans [OF trace_scale_extends trace_eliminate_extends]])
      moreover have "extends ?next (gaussian_loop rows cols (Suc col) (Suc p) ?next)"
        using "1.IH"(2) [OF True refl big] .
      ultimately show ?thesis
        by (simp only: gaussian_loop_pivot [OF True big]) (rule extends_trans)
    qed
  qed
qed

lemma swap_rows_same: "swap_rows result p p = result"
  by (simp add: swap_rows_def)

lemma scale_row_one: "scale_row row 1 cols = row"
proof -
  have "foldl (\<lambda>r j. r[j := r ! j / 1]) row xs = row" for xs :: "nat list"
    by (induction xs) simp_all
  then show ?thesis by (simp add: scale_row_def)
qed

lemma fst_trace_swap: "fst (trace_swap p m st) = swap_rows (fst st) p m"
  by (cases st) (simp add: trace_swap_def Let_def swap_rows_same)

lemma fst_trace_scale:
  "fst st ! p ! col = 1 \<or> \<bar>fst st ! p ! col - 1\<bar> > tol \<Longrightarrow>
   fst (trace_scale p col cols st) =
   (fst st)[p := scale_row (fst st ! p) (fst st ! p ! col) cols]"
  by (cases st) (auto simp add: trace_scale_def Let_def scale_row_one)

lemma trace_eliminate_fold:
  "fst (foldl (\<lambda>(res, steps, stepId) i.
              if i \<noteq> pivotRow \<and> \<bar>res ! i ! col\<bar> > tol then
                let factor = res ! i ! col;
                    res' = res[i := subtract_row (res ! i) factor (res ! pivotRow) cols]
                in (res',
                    steps @ [\<lparr>step_id = stepId,
                              step_description = EliminateRow (i + 1) factor (pivotRow + 1),
                              step_matrix = res',
                              step_operation = Some (EliminateRow (i + 1) factor (pivotRow + 1)),
                              step_highlight = Some \<lparr>hl_row = Some i, hl_col = Some col,
                                                     hl_element = None\<rparr>\<rparr>],
                    Suc stepId)
              else (res, steps, stepId))
           st xs)
   = foldl (\<lambda>res i. if i \<noteq> pivotRow \<and> \<bar>res ! i ! col\<bar> > tol
                     then res[i := subtract_row (res ! i) (res ! i ! col) (res ! pivotRow) cols]
                     else res) (fst st) xs"
proof (induction xs arbitrary: st)
  case Nil
  show ?case by simp
next
  case (Cons x xs)
  obtain r s i where st: "st = (r, s, i)" by (cases st)
  show ?case unfolding st foldl_Cons
    by (subst Cons.IH) (simp add: Let_def)
qed

lemma fst_trace_eliminate:
  "fst (trace_eliminate_column p col rows cols st) = eliminate_column (fst st) p col rows cols"
  unfolding trace_eliminate_column_def eliminate_column_def
  by (rule trace_eliminate_fold)

lemma gaussian_loop_rref:
  "pivots_scaled rows cols col p (fst st) \<Longrightarrow>
   fst (gaussian_loop rows cols col p st) = rref_loop rows cols col p (fst st)"
proof (induction rows cols col p st rule: gaussian_loop.induct)
  case (1 rows cols col p st)
  show ?case
  proof (cases "col < cols \<and> p < rows")
    case False
    show ?thesis by (simp only: gaussian_loop_done [OF False] rref_loop_done [OF False])
  next
    case True
    define maxRow where "maxRow = find_max_row (fst st) col p rows"
    show ?thesis
    proof (cases "\<bar>fst st ! find_max_row (fst st) col p rows ! col\<bar> < tol")
      case small: True
      have "pivots_scaled rows cols (Suc col) p (fst st)"
        using "1.prems" by (simp only: pivots_scaled_skip [OF True small])
      then show ?thesis
        using "1.IH"(1) [OF True refl small]
        by (simp only: gaussian_loop_skip [OF True small] rref_loop_skip [OF True small])
    next
      case big: False
      define swapped where "swapped = swap_rows (fst st) p maxRow"
      define eliminated where "eliminated =
        eliminate_column (swapped[p := scale_row (swapped ! p) (swapped ! p ! col) cols])
          p col rows cols"
      let ?next = "trace_eliminate_column p col rows cols
                     (trace_scale p col cols (trace_swap p maxRow st))"
      have both: "(swapped ! p ! col = 1 \<or> \<bar>swapped ! p ! col - 1\<bar> > tol)
           \<and> pivots_scaled rows cols (Suc col) (Suc p) eliminated"
        using "1.prems"
        unfolding pivots_scaled_pivot [OF True big] eliminated_def swapped_def maxRow_def .
      have ps: "swapped ! p ! col = 1 \<or> \<bar>swapped ! p ! col - 1\<bar> > tol"
           "pivots_scaled rows cols (Suc col) (Suc p) eliminated"
        using both by blast+
      have nx: "fst ?next = eliminated"
        using ps(1)
        by (simp add: fst_trace_eliminate fst_trace_scale fst_trace_swap
            eliminated_def swapped_def)
      have g: "gaussian_loop rows cols col p st = gaussian_loop rows cols (Suc col) (Suc p) ?next"
        by (simp only: gaussian_loop_pivot [OF True big] maxRow_def)
      have r: "rref_loop rows cols col p (fst st) = rref_loop rows cols (Suc col) (Suc p) eliminated"
        by (simp only: rref_loop_pivot [OF True big] eliminated_def swapped_def maxRow_def)
      have "pivots_scaled rows cols (Suc col) (Suc p) (fst ?next)"
        using ps(2) by (simp only: nx)
      then have "fst (gaussian_loop rows cols (Suc col) (Suc p) ?next) =
            rref_loop rows cols (Suc col) (Suc p) (fst ?next)"
        unfolding maxRow_def by (rule "1.IH"(2) [OF True refl big])
      then show ?thesis by (simp only: g r nx)
    qed
  qed
qed

text \<open>
  C6, as stated, fails: the traced generator divides the pivot row only when the pivot is
  farther than \<open>1e-10\<close> from 1, and \<open>rref\<close> always divides. For the one-entry matrix
  \<open>1 + 1/2^34\<close> the trace ends with the matrix unchanged, and \<open>rref\<close> returns \<open>[[1]]\<close>.
\<close>

theorem gaussian_trace_differs_from_rref:
  "generateGaussianSteps [[1 + 1 / 2 ^ 34]] =
     Inr [\<lparr>step_id = 0, step_description = StartingMatrix, step_matrix = [[1 + 1 / 2 ^ 34]],
           step_operation = None, step_highlight = None\<rparr>,
          \<lparr>step_id = 1, step_description = RREFComplete, step_matrix = [[1 + 1 / 2 ^ 34]],
           step_operation = None, step_highlight = None\<rparr>]
   \<and> rref [[1 + 1 / 2 ^ 34]] = Inr [[1]]
   \<and> [[1 + 1 / 2 ^ 34]] \<noteq> [[1 :: real]]"
  by code_simp

text \<open>
  C6, amended, for exact arithmetic: the entries are real numbers, every operation of the
  two reductions is the exact one, and the tolerance is the value of the double \<open>1e-10\<close>.
  For every matrix with at least one row and all rows of one length the traced generator
  returns a finite sequence of steps, numbered 0, 1, 2, ...: the first is the starting
  step showing the input, the last is the completion step, and the steps between them
  record row operations. When every pivot selected during the exact reduction is 1 or
  farther than the tolerance from 1, the matrix of the last step is \<open>rref\<close> of the input.
  Nothing is said here about a run on doubles, where rounding can put a pivot within the
  tolerance of 1 that is exactly 1 on the reals.
\<close>

theorem generateGaussianSteps_trace:
  assumes "isValidMatrix A"
  shows "\<exists>steps. generateGaussianSteps A = Inr steps
      \<and> 2 \<le> length steps
      \<and> hd steps = \<lparr>step_id = 0, step_description = StartingMatrix, step_matrix = A,
                     step_operation = None, step_highlight = None\<rparr>
      \<and> step_description (last steps) = RREFComplete
      \<and> list_all (\<lambda>s. row_operation (step_description s)) (butlast (tl steps))
      \<and> map step_id steps = [0..<length steps]
      \<and> (pivots_scaled (length A) (length (A ! 0)) 0 0 A \<longrightarrow>
           rref A = Inr (step_matrix (last steps)))"
proof -
  let ?start = "\<lparr>step_id = 0, step_description = StartingMatrix, step_matrix = A,
                 step_operation = None, step_highlight = None\<rparr>"
  let ?rows = "length A" and ?cols = "length (A ! 0)"
  obtain r steps' sid where loop: "gaussian_loop ?rows ?cols 0 0 (A, [?start], 1) = (r, steps', sid)"
    by (metis prod_cases3)
  let ?done = "\<lparr>step_id = sid, step_description = RREFComplete, step_matrix = r,
                step_operation = None, step_highlight = None\<rparr>"
  have ne: "A \<noteq> []" using assms by (simp add: isValidMatrix_def)
  have gen: "generateGaussianSteps A = Inr (steps' @ [?done])"
    using ne loop by (simp add: generateGaussianSteps_def)
  have "extends (A, [?start], 1) (r, steps', sid)"
    using gaussian_loop_extends [of "(A, [?start], 1)" ?rows ?cols 0 0] loop by simp
  then obtain ext where ext: "steps' = [?start] @ ext" "sid = 1 + length ext"
      "map step_id ext = [1..<1 + length ext]"
      "list_all (\<lambda>s. row_operation (step_description s)) ext"
    by (auto simp: extends_def)
  have ids: "map step_id (steps' @ [?done]) = [0..<length (steps' @ [?done])]"
  proof -
    have "[0..<Suc (Suc (length ext))] = [0..<Suc (length ext)] @ [Suc (length ext)]"
      by (rule upt_Suc_append) simp
    also have "[0..<Suc (length ext)] = 0 # [Suc 0..<Suc (length ext)]"
      by (rule upt_conv_Cons) simp
    finally have "[0..<Suc (Suc (length ext))] =
                  0 # [Suc 0..<Suc (length ext)] @ [Suc (length ext)]"
      by simp
    then show ?thesis using ext by (simp del: upt_Suc)
  qed
  have final: "rref A = Inr r" if "pivots_scaled ?rows ?cols 0 0 A"
    using gaussian_loop_rref [of ?rows ?cols 0 0 "(A, [?start], 1)"] that loop ne
    by (simp add: rref_def)
  show ?thesis
    unfolding gen
    using ext(1,4) ids final by (intro exI [of _ "steps' @ [?done]"]) simp
qed

theorem generateGaussianSteps_trace_witness:
  "isValidMatrix [[2, 1], [4, 3]]
   \<and> pivots_scaled (length [[2, 1], [4, 3 :: real]]) (length ([[2, 1], [4, 3 :: real]] ! 0)) 0 0
        [[2, 1], [4, 3]]
   \<and> rref [[2, 1], [4, 3]] = Inr [[1, 0], [0, 1]]
   \<and> (\<exists>steps. generateGaussianSteps [[2, 1], [4, 3]] = Inr steps
          \<and> step_matrix (last steps) = [[1, 0], [0, 1]])"
proof -
  let ?A = "[[2, 1], [4, 3]] :: matrix"
  have ne: "isValidMatrix ?A" by (simp add: isValidMatrix_def)
  have ps: "pivots_scaled (length ?A) (length (?A ! 0)) 0 0 ?A" by code_simp
  have rr: "rref ?A = Inr [[1, 0], [0, 1]]" by code_simp
  from generateGaussianSteps_trace [OF ne] ps rr
  have "\<exists>steps. generateGaussianSteps ?A = Inr steps
          \<and> step_matrix (last steps) = [[1, 0], [0, 1]]"
    by auto
  with ne ps rr show ?thesis by blast
qed

section \<open>Applying the row reduction twice\<close>

lemma rect_row: "rect rows cols m \<Longrightarrow> i < rows \<Longrightarrow> length (m ! i) = cols"
  by (simp add: rect_def list_all_length)

lemma rect_length: "rect rows cols m \<Longrightarrow> length m = rows"
  by (simp add: rect_def)

lemma rectI: "length m = rows \<Longrightarrow> (\<And>i. i < rows \<Longrightarrow> length (m ! i) = cols) \<Longrightarrow> rect rows cols m"
  by (simp add: rect_def list_all_length)

text \<open>A loop that rewrites the entries \<open>0 .. n-1\<close> of a row in place.\<close>

lemma pointwise_loop:
  "n \<le> length row \<Longrightarrow>
   length (foldl (\<lambda>r j. r[j := f j (r ! j)]) row [0..<n]) = length row
   \<and> (\<forall>j<length row. foldl (\<lambda>r j. r[j := f j (r ! j)]) row [0..<n] ! j =
         (if j < n then f j (row ! j) else row ! j))"
proof (induction n)
  case 0
  show ?case by simp
next
  case (Suc n)
  then have IH: "length (foldl (\<lambda>r j. r[j := f j (r ! j)]) row [0..<n]) = length row"
    "\<And>j. j < length row \<Longrightarrow> foldl (\<lambda>r j. r[j := f j (r ! j)]) row [0..<n] ! j =
         (if j < n then f j (row ! j) else row ! j)"
    by simp_all
  from Suc.prems have n: "n < length row" by simp
  show ?case
    using IH n by (auto simp add: nth_list_update less_Suc_eq)
qed

lemma scale_row_nth:
  "length row = cols \<Longrightarrow> j < cols \<Longrightarrow> scale_row row pivot cols ! j = row ! j / pivot"
  using pointwise_loop [of cols row "\<lambda>j x. x / pivot"] by (simp add: scale_row_def)

lemma scale_row_length:
  "length row = cols \<Longrightarrow> length (scale_row row pivot cols) = cols"
  using pointwise_loop [of cols row "\<lambda>j x. x / pivot"] by (simp add: scale_row_def)

lemma subtract_row_nth:
  "length row = cols \<Longrightarrow> j < cols \<Longrightarrow>
   subtract_row row factor prow cols ! j = row ! j - factor * prow ! j"
  using pointwise_loop [of cols row "\<lambda>j x. x - factor * prow ! j"]
  by (simp add: subtract_row_def)

lemma subtract_row_length:
  "length row = cols \<Longrightarrow> length (subtract_row row factor prow cols) = cols"
  using pointwise_loop [of cols row "\<lambda>j x. x - factor * prow ! j"]
  by (simp add: subtract_row_def)

lemma subtract_row_zero: "length row = cols \<Longrightarrow> subtract_row row 0 prow cols = row"
  by (rule nth_equalityI) (simp_all add: subtract_row_length subtract_row_nth)

text \<open>The elimination loop, row by row.\<close>

lemma eliminate_loop:
  assumes "n \<le> length m" and "p < length m"
  shows "length (foldl (\<lambda>res i. if i \<noteq> p \<and> \<bar>res ! i ! col\<bar> > tol
                     then res[i := subtract_row (res ! i) (res ! i ! col) (res ! p) cols]
                     else res) m [0..<n]) = length m
   \<and> (\<forall>i<length m. foldl (\<lambda>res i. if i \<noteq> p \<and> \<bar>res ! i ! col\<bar> > tol
                     then res[i := subtract_row (res ! i) (res ! i ! col) (res ! p) cols]
                     else res) m [0..<n] ! i =
         (if i < n \<and> i \<noteq> p \<and> \<bar>m ! i ! col\<bar> > tol
          then subtract_row (m ! i) (m ! i ! col) (m ! p) cols else m ! i))"
  using assms(1)
proof (induction n)
  case 0
  show ?case by simp
next
  case (Suc n)
  let ?F = "\<lambda>res i. if i \<noteq> p \<and> \<bar>res ! i ! col\<bar> > tol
                     then res[i := subtract_row (res ! i) (res ! i ! col) (res ! p) cols]
                     else res"
  from Suc have IH: "length (foldl ?F m [0..<n]) = length m"
    "\<And>i. i < length m \<Longrightarrow> foldl ?F m [0..<n] ! i =
         (if i < n \<and> i \<noteq> p \<and> \<bar>m ! i ! col\<bar> > tol
          then subtract_row (m ! i) (m ! i ! col) (m ! p) cols else m ! i)"
    by simp_all
  from Suc.prems have n: "n < length m" by simp
  have pn: "foldl ?F m [0..<n] ! p = m ! p" using IH(2) [OF assms(2)] by simp
  have nn: "foldl ?F m [0..<n] ! n = m ! n" using IH(2) [OF n] by simp
  show ?case
    using IH n assms(2) pn nn by (auto simp add: nth_list_update less_Suc_eq)
qed

lemma eliminate_column_nth:
  assumes "length m = rows" and "p < rows" and "i < rows"
  shows "eliminate_column m p col rows cols ! i =
         (if i \<noteq> p \<and> \<bar>m ! i ! col\<bar> > tol
          then subtract_row (m ! i) (m ! i ! col) (m ! p) cols else m ! i)"
  using eliminate_loop [of rows m p col cols] assms by (simp add: eliminate_column_def)

lemma eliminate_column_length:
  assumes "length m = rows" and "p < rows"
  shows "length (eliminate_column m p col rows cols) = rows"
  using eliminate_loop [of rows m p col cols] assms by (simp add: eliminate_column_def)

text \<open>The pivot search.\<close>

lemma find_max_loop:
  fixes m :: matrix
  assumes "start \<le> n"
  shows "start \<le> find_max_row m col start (Suc n) \<and> find_max_row m col start (Suc n) \<le> n
       \<and> (\<forall>i. start \<le> i \<and> i \<le> n \<longrightarrow>
             \<bar>m ! i ! col\<bar> \<le> \<bar>m ! find_max_row m col start (Suc n) ! col\<bar>)
       \<and> (\<forall>i. start \<le> i \<and> i < find_max_row m col start (Suc n) \<longrightarrow>
             \<bar>m ! i ! col\<bar> < \<bar>m ! find_max_row m col start (Suc n) ! col\<bar>)"
  using assms
proof (induction n)
  case 0
  then show ?case by (simp add: find_max_row_def)
next
  case (Suc n)
  let ?f = "\<lambda>maxRow i. if \<bar>m ! i ! col\<bar> > \<bar>m ! maxRow ! col\<bar> then i else maxRow"
  show ?case
  proof (cases "start = Suc n")
    case True
    then show ?thesis by (auto simp add: find_max_row_def le_antisym)
  next
    case False
    with Suc.prems have le: "start \<le> n" by simp
    define r where "r = find_max_row m col start (Suc n)"
    have up: "find_max_row m col start (Suc (Suc n)) = ?f r (Suc n)"
      using le by (simp add: r_def find_max_row_def)
    have IH: "start \<le> r" "r \<le> n"
      "\<And>i. start \<le> i \<Longrightarrow> i \<le> n \<Longrightarrow> \<bar>m ! i ! col\<bar> \<le> \<bar>m ! r ! col\<bar>"
      "\<And>i. start \<le> i \<Longrightarrow> i < r \<Longrightarrow> \<bar>m ! i ! col\<bar> < \<bar>m ! r ! col\<bar>"
      using Suc.IH [OF le] unfolding r_def by blast+
    show ?thesis
    proof (cases "\<bar>m ! Suc n ! col\<bar> > \<bar>m ! r ! col\<bar>")
      case True
      then have f: "?f r (Suc n) = Suc n" by simp
      have "\<bar>m ! i ! col\<bar> < \<bar>m ! Suc n ! col\<bar>" if "start \<le> i" "i < Suc n" for i
        using IH(3) [of i] that True by simp
      moreover have "\<bar>m ! i ! col\<bar> \<le> \<bar>m ! Suc n ! col\<bar>" if "start \<le> i" "i \<le> Suc n" for i
        using IH(3) [of i] that True by (cases "i = Suc n") simp_all
      ultimately show ?thesis unfolding up f using Suc.prems by blast
    next
      case False
      then have f: "?f r (Suc n) = r" by simp
      have "\<bar>m ! i ! col\<bar> \<le> \<bar>m ! r ! col\<bar>" if "start \<le> i" "i \<le> Suc n" for i
        using IH(3) [of i] that False by (cases "i = Suc n") simp_all
      then show ?thesis unfolding up f using IH by auto
    qed
  qed
qed

lemma find_max_row_props:
  fixes m :: matrix
  assumes "p < rows"
  shows "p \<le> find_max_row m col p rows" and "find_max_row m col p rows < rows"
    and "\<And>i. p \<le> i \<Longrightarrow> i < rows \<Longrightarrow> \<bar>m ! i ! col\<bar> \<le> \<bar>m ! find_max_row m col p rows ! col\<bar>"
    and "\<And>i. p \<le> i \<Longrightarrow> i < find_max_row m col p rows \<Longrightarrow>
             \<bar>m ! i ! col\<bar> < \<bar>m ! find_max_row m col p rows ! col\<bar>"
proof -
  obtain n where n: "rows = Suc n" using assms by (cases rows) simp_all
  with assms have "p \<le> n" by simp
  note L = find_max_loop [OF this, of m col, folded n]
  show "p \<le> find_max_row m col p rows" using L by blast
  show "find_max_row m col p rows < rows" using L n by simp
  show "\<bar>m ! i ! col\<bar> \<le> \<bar>m ! find_max_row m col p rows ! col\<bar>" if "p \<le> i" "i < rows" for i
    using L that n by simp
  show "\<bar>m ! i ! col\<bar> < \<bar>m ! find_max_row m col p rows ! col\<bar>"
    if "p \<le> i" "i < find_max_row m col p rows" for i
    using L that by blast
qed

lemma tol_pos: "0 < tol" and tol_less_one: "tol < 1"
  by (simp_all add: tol_def)

lemma eliminate_column_id:
  assumes "length m = rows" and "p < rows"
    and "\<And>i. i < rows \<Longrightarrow> i \<noteq> p \<Longrightarrow> \<not> \<bar>m ! i ! col\<bar> > tol"
  shows "eliminate_column m p col rows cols = m"
proof (rule nth_equalityI)
  show "length (eliminate_column m p col rows cols) = length m"
    using assms(1,2) by (simp add: eliminate_column_length)
next
  fix i assume "i < length (eliminate_column m p col rows cols)"
  then have i: "i < rows" using assms(1,2) by (simp add: eliminate_column_length)
  show "eliminate_column m p col rows cols ! i = m ! i"
    using assms i by (auto simp add: eliminate_column_nth)
qed

lemma rref_loop_fixed:
  assumes "reduced rows cols pc R"
  shows "p \<le> length pc \<Longrightarrow> (\<forall>k<p. pc ! k < col) \<Longrightarrow>
         (\<forall>k<length pc. p \<le> k \<longrightarrow> col \<le> pc ! k) \<Longrightarrow>
         rref_loop rows cols col p R = R"
proof (induction "cols - col" arbitrary: col p)
  case 0
  then have "\<not> (col < cols \<and> p < rows)" by simp
  then show ?case by (rule rref_loop_done)
next
  case (Suc d)
  have R: "rect rows cols R" "length pc \<le> rows" "sorted_wrt (<) pc"
    "\<And>k. k < length pc \<Longrightarrow> R ! k ! (pc ! k) = 1"
    "\<And>k i. k < length pc \<Longrightarrow> i < rows \<Longrightarrow> i \<noteq> k \<Longrightarrow> R ! i ! (pc ! k) = 0"
    "\<And>k j. k < length pc \<Longrightarrow> j < pc ! k \<Longrightarrow> R ! k ! j = 0"
    "\<And>i j. i < rows \<Longrightarrow> length pc \<le> i \<Longrightarrow> j < cols \<Longrightarrow> R ! i ! j = 0"
    using assms unfolding reduced_def by blast+
  from Suc.hyps(2) have col: "col < cols" and d: "d = cols - Suc col" by simp_all
  show ?case
  proof (cases "p < rows")
    case False
    then have "\<not> (col < cols \<and> p < rows)" by simp
    then show ?thesis by (rule rref_loop_done)
  next
    case p: True
    have run: "col < cols \<and> p < rows" using col p by simp
    define r where "r = find_max_row R col p rows"
    have r: "p \<le> r" "r < rows"
      and rlt: "\<And>i. p \<le> i \<Longrightarrow> i < r \<Longrightarrow> \<bar>R ! i ! col\<bar> < \<bar>R ! r ! col\<bar>"
      unfolding r_def using find_max_row_props [OF p, where m = R and col = col] by blast+
    show ?thesis
    proof (cases "p < length pc \<and> pc ! p = col")
      case True
      then have pk: "p < length pc" and pc: "pc ! p = col" by simp_all
      have one: "R ! p ! col = 1" using R(4) [OF pk] pc by simp
      have zero: "R ! i ! col = 0" if "i < rows" "i \<noteq> p" for i
        using R(5) [OF pk that] pc by simp
      have "r = p"
      proof (rule ccontr)
        assume "r \<noteq> p"
        with r have "p < r" by simp
        from rlt [OF order_refl this] zero [OF r(2) \<open>r \<noteq> p\<close>] one show False by simp
      qed
      then have big: "\<not> \<bar>R ! find_max_row R col p rows ! col\<bar> < tol"
        using one tol_less_one by (simp add: r_def [symmetric])
      have sw: "swap_rows R p (find_max_row R col p rows) = R"
        using \<open>r = p\<close> by (simp add: r_def [symmetric] swap_rows_same)
      have el: "eliminate_column R p col rows cols = R"
        using R(1) p zero tol_pos by (intro eliminate_column_id) (simp_all add: rect_length)
      have rest: "rref_loop rows cols (Suc col) (Suc p) R = R"
      proof (rule Suc.hyps(1) [OF d])
        show "Suc p \<le> length pc" using pk by simp
        show "\<forall>k<Suc p. pc ! k < Suc col"
          using Suc.prems(2) pc by (auto simp add: less_Suc_eq)
        show "\<forall>k<length pc. Suc p \<le> k \<longrightarrow> Suc col \<le> pc ! k"
        proof (intro allI impI)
          fix k assume k: "k < length pc" "Suc p \<le> k"
          then have "pc ! p < pc ! k"
            using R(3) by (simp add: sorted_wrt_nth_less)
          then show "Suc col \<le> pc ! k" using pc by simp
        qed
      qed
      show ?thesis
        unfolding rref_loop_pivot [OF run big] sw
        using one el rest by (simp add: scale_row_one)
    next
      case False
      have zero: "R ! i ! col = 0" if "i < rows" "p \<le> i" for i
      proof (cases "i < length pc")
        case True
        then have "col \<le> pc ! i" using Suc.prems(3) that by simp
        moreover have "pc ! i \<noteq> col"
        proof
          assume e: "pc ! i = col"
          with False have "i \<noteq> p" using True by auto
          with that have "p < i" by simp
          then have "pc ! p < pc ! i" using R(3) True by (simp add: sorted_wrt_nth_less)
          moreover have "col \<le> pc ! p" using Suc.prems(3) \<open>p < i\<close> True by simp
          ultimately show False using e by simp
        qed
        ultimately have "col < pc ! i" by simp
        then show ?thesis using R(6) [OF True] by simp
      next
        case False
        then show ?thesis using R(7) that col by simp
      qed
      have small: "\<bar>R ! find_max_row R col p rows ! col\<bar> < tol"
        using zero [OF r(2) r(1)] tol_pos by (simp add: r_def [symmetric])
      have rest: "rref_loop rows cols (Suc col) p R = R"
      proof (rule Suc.hyps(1) [OF d Suc.prems(1)])
        show "\<forall>k<p. pc ! k < Suc col" using Suc.prems(2) by (simp add: less_Suc_eq)
        show "\<forall>k<length pc. p \<le> k \<longrightarrow> Suc col \<le> pc ! k"
        proof (intro allI impI)
          fix k assume k: "k < length pc" "p \<le> k"
          then have "col \<le> pc ! k" using Suc.prems(3) by simp
          moreover have "pc ! k \<noteq> col"
          proof
            assume e: "pc ! k = col"
            have "k < rows" using k(1) R(2) by simp
            from zero [OF this k(2)] R(4) [OF k(1)] e show False by simp
          qed
          ultimately show "Suc col \<le> pc ! k" by simp
        qed
      qed
      show ?thesis
        unfolding rref_loop_skip [OF run small] by (rule rest)
    qed
  qed
qed

lemma rref_fixed:
  assumes "reduced rows cols pc R" and "0 < rows"
  shows "rref R = Inr R"
proof -
  have len: "length R = rows" "R \<noteq> []" "length (R ! 0) = cols"
    using assms by (auto simp add: reduced_def rect_def list_all_length)
  have "rref_loop rows cols 0 0 R = R"
    by (rule rref_loop_fixed [OF assms(1)]) simp_all
  then show ?thesis using len by (simp add: rref_def)
qed

lemma exact_reduction_skip:
  assumes "col < cols \<and> p < rows"
    and "\<bar>result ! find_max_row result col p rows ! col\<bar> < tol"
  shows "exact_reduction rows cols col p result =
         (result ! find_max_row result col p rows ! col = 0
          \<and> exact_reduction rows cols (Suc col) p result)"
  by (subst exact_reduction.simps) (simp add: assms Let_def)

lemma exact_reduction_pivot:
  assumes "col < cols \<and> p < rows"
    and "\<not> \<bar>result ! find_max_row result col p rows ! col\<bar> < tol"
  shows "exact_reduction rows cols col p result =
         (list_all (\<lambda>i. i = p
               \<or> \<bar>(swap_rows result p (find_max_row result col p rows))
                 [p := scale_row (swap_rows result p (find_max_row result col p rows) ! p)
                         (swap_rows result p (find_max_row result col p rows) ! p ! col) cols]
                   ! i ! col\<bar> > tol
               \<or> (swap_rows result p (find_max_row result col p rows))
                 [p := scale_row (swap_rows result p (find_max_row result col p rows) ! p)
                         (swap_rows result p (find_max_row result col p rows) ! p ! col) cols]
                   ! i ! col = 0) [0..<rows]
          \<and> exact_reduction rows cols (Suc col) (Suc p)
           (eliminate_column
              ((swap_rows result p (find_max_row result col p rows))
                 [p := scale_row (swap_rows result p (find_max_row result col p rows) ! p)
                         (swap_rows result p (find_max_row result col p rows) ! p ! col) cols])
              p col rows cols))"
  by (subst exact_reduction.simps) (simp add: assms Let_def)

lemma swap_rows_nth:
  "p < length M \<Longrightarrow> r < length M \<Longrightarrow> i < length M \<Longrightarrow>
   swap_rows M p r ! i = (if i = r then M ! p else if i = p then M ! r else M ! i)"
  by (simp add: swap_rows_def nth_list_update)

lemma swap_rows_length: "length (swap_rows M p r) = length M"
  by (simp add: swap_rows_def)

text \<open>The entries after one pivot step, when every entry left in the column is exactly 0.\<close>

lemma pivot_step:
  fixes M :: matrix
  assumes rc: "rect rows cols M" and pr: "p \<le> r" "r < rows" and col: "col < cols"
    and nz: "M ! r ! col \<noteq> 0"
  defines "swapped \<equiv> swap_rows M p r"
  defines "scaled \<equiv> swapped[p := scale_row (swapped ! p) (swapped ! p ! col) cols]"
  defines "E \<equiv> eliminate_column scaled p col rows cols"
  assumes exact: "list_all (\<lambda>i. i = p \<or> \<bar>scaled ! i ! col\<bar> > tol \<or> scaled ! i ! col = 0) [0..<rows]"
  shows "rect rows cols E"
    and "\<And>j. j < cols \<Longrightarrow> E ! p ! j = M ! r ! j / M ! r ! col"
    and "\<And>i j. i < rows \<Longrightarrow> i \<noteq> p \<Longrightarrow> j < cols \<Longrightarrow>
           E ! i ! j = (if i = r then M ! p else M ! i) ! j
                       - (if i = r then M ! p else M ! i) ! col * (M ! r ! j / M ! r ! col)"
proof -
  have len: "length M = rows" and rowlen: "\<And>i. i < rows \<Longrightarrow> length (M ! i) = cols"
    using rc by (simp_all add: rect_length rect_row)
  have p: "p < rows" using pr by simp
  have sw: "swapped ! i = (if i = r then M ! p else if i = p then M ! r else M ! i)"
    if "i < rows" for i
    unfolding swapped_def using that p pr len by (simp add: swap_rows_nth)
  have swp: "swapped ! p = M ! r" using sw [OF p] by simp
  have slen: "length swapped = rows" by (simp add: swapped_def swap_rows_length len)
  have sclen: "length scaled = rows" by (simp add: scaled_def slen)
  have scp: "scaled ! p ! j = M ! r ! j / M ! r ! col" if "j < cols" for j
    using that p slen rowlen [OF pr(2)] by (simp add: scaled_def swp scale_row_nth)
  have scplen: "length (scaled ! p) = cols"
    using p slen rowlen [OF pr(2)] by (simp add: scaled_def swp scale_row_length)
  have sci: "scaled ! i = (if i = r then M ! p else M ! i)" if "i < rows" "i \<noteq> p" for i
    using that sw [OF that(1)] by (simp add: scaled_def)
  have scilen: "length (scaled ! i) = cols" if "i < rows" for i
    using that scplen sci [OF that] rowlen p by (cases "i = p") auto
  have ex: "\<bar>scaled ! i ! col\<bar> > tol \<or> scaled ! i ! col = 0" if "i < rows" "i \<noteq> p" for i
    using exact that by (auto simp add: list_all_iff)
  have Ei: "E ! i = (if i \<noteq> p \<and> \<bar>scaled ! i ! col\<bar> > tol
          then subtract_row (scaled ! i) (scaled ! i ! col) (scaled ! p) cols else scaled ! i)"
    if "i < rows" for i
    unfolding E_def using sclen p that by (rule eliminate_column_nth)
  show "rect rows cols E"
  proof (rule rectI)
    show "length E = rows" unfolding E_def using sclen p by (rule eliminate_column_length)
    show "length (E ! i) = cols" if "i < rows" for i
      using Ei [OF that] scilen [OF that] by (simp add: subtract_row_length)
  qed
  show "E ! p ! j = M ! r ! j / M ! r ! col" if "j < cols" for j
    using Ei [OF p] scp [OF that] by simp
  show "E ! i ! j = (if i = r then M ! p else M ! i) ! j
                       - (if i = r then M ! p else M ! i) ! col * (M ! r ! j / M ! r ! col)"
    if "i < rows" "i \<noteq> p" "j < cols" for i j
  proof (cases "\<bar>scaled ! i ! col\<bar> > tol")
    case True
    then have "E ! i ! j = scaled ! i ! j - scaled ! i ! col * scaled ! p ! j"
      using Ei [OF that(1)] that scilen [OF that(1)] by (simp add: subtract_row_nth)
    then show ?thesis using sci [OF that(1,2)] scp [OF that(3)] by simp
  next
    case False
    then have "scaled ! i ! col = 0" using ex [OF that(1,2)] by simp
    moreover have "E ! i ! j = scaled ! i ! j" using Ei [OF that(1)] False by simp
    ultimately show ?thesis using sci [OF that(1,2)] by simp
  qed
qed

lemma echelon_final:
  assumes "echelon rows cols col pc M" and "col \<le> cols" and "\<not> (col < cols \<and> length pc < rows)"
  shows "reduced rows cols pc M"
proof -
  have E: "rect rows cols M" "length pc \<le> rows" "sorted_wrt (<) pc" "\<forall>c\<in>set pc. c < col"
    "\<forall>k<length pc. M ! k ! (pc ! k) = 1
             \<and> (\<forall>i<rows. i \<noteq> k \<longrightarrow> M ! i ! (pc ! k) = 0)
             \<and> (\<forall>j<pc ! k. M ! k ! j = 0)"
    "\<forall>i<rows. length pc \<le> i \<longrightarrow> (\<forall>j<col. M ! i ! j = 0)"
    using assms(1) unfolding echelon_def by blast+
  have "\<forall>c\<in>set pc. c < cols" using E(4) assms(2) by auto
  moreover have "\<forall>i<rows. length pc \<le> i \<longrightarrow> (\<forall>j<cols. M ! i ! j = 0)"
  proof (cases "col < cols")
    case True
    with assms(3) E(2) have "length pc = rows" by simp
    then show ?thesis by simp
  next
    case False
    with assms(2) have "col = cols" by simp
    then show ?thesis using E(6) by simp
  qed
  ultimately show ?thesis unfolding reduced_def using E(1,2,3,5) by blast
qed

lemma echelon_skip:
  assumes "echelon rows cols col pc M"
    and "\<And>i. i < rows \<Longrightarrow> length pc \<le> i \<Longrightarrow> M ! i ! col = 0"
  shows "echelon rows cols (Suc col) pc M"
  using assms unfolding echelon_def by (auto simp add: less_Suc_eq)

lemma echelon_pivot:
  fixes M E :: matrix
  assumes ech: "echelon rows cols col pc M"
    and pr: "length pc \<le> r" "r < rows" and col: "col < cols"
    and nz: "M ! r ! col \<noteq> 0"
    and rc: "rect rows cols E"
    and Ep: "\<And>j. j < cols \<Longrightarrow> E ! length pc ! j = M ! r ! j / M ! r ! col"
    and Ei: "\<And>i j. i < rows \<Longrightarrow> i \<noteq> length pc \<Longrightarrow> j < cols \<Longrightarrow>
           E ! i ! j = (if i = r then M ! length pc else M ! i) ! j
                       - (if i = r then M ! length pc else M ! i) ! col * (M ! r ! j / M ! r ! col)"
  shows "echelon rows cols (Suc col) (pc @ [col]) E"
proof -
  let ?p = "length pc"
  have M: "rect rows cols M" "sorted_wrt (<) pc" "\<And>c. c \<in> set pc \<Longrightarrow> c < col"
    "\<And>k. k < ?p \<Longrightarrow> M ! k ! (pc ! k) = 1"
    "\<And>k i. k < ?p \<Longrightarrow> i < rows \<Longrightarrow> i \<noteq> k \<Longrightarrow> M ! i ! (pc ! k) = 0"
    "\<And>k j. k < ?p \<Longrightarrow> j < pc ! k \<Longrightarrow> M ! k ! j = 0"
    "\<And>i j. i < rows \<Longrightarrow> ?p \<le> i \<Longrightarrow> j < col \<Longrightarrow> M ! i ! j = 0"
    using ech unfolding echelon_def by blast+
  have p: "?p < rows" using pr by simp
  have pck: "pc ! k < col" if "k < ?p" for k using M(3) that by simp
  have pckc: "pc ! k < cols" if "k < ?p" for k using pck [OF that] col by simp
  text \<open>the pivot row is zero left of the new pivot column\<close>
  have rzero: "M ! r ! j = 0" if "j < col" for j using M(7) [OF pr(2) pr(1) that] .
  have pzero: "M ! ?p ! j = 0" if "j < col" for j using M(7) [OF p order_refl that] .
  have Epj: "E ! ?p ! j = 0" if "j < col" for j
    using Ep [of j] that col rzero [OF that] by simp
  have Epc: "E ! ?p ! col = 1" using Ep [OF col] nz by simp
  text \<open>a row below the old pivots, other than the new pivot row\<close>
  have below: "E ! i ! j = 0" if "i < rows" "?p < i" "j \<le> col" for i j
  proof -
    let ?row = "if i = r then M ! ?p else M ! i"
    have e: "E ! i ! j = ?row ! j - ?row ! col * (M ! r ! j / M ! r ! col)"
      using Ei [of i j] that col by simp
    show ?thesis
    proof (cases "j = col")
      case True
      then show ?thesis using e nz by simp
    next
      case False
      with that have j: "j < col" by simp
      have "?row ! j = 0" using M(7) [of i j] pzero [OF j] that j by simp
      then show ?thesis using e rzero [OF j] by simp
    qed
  qed
  text \<open>an old pivot row\<close>
  have old: "E ! k ! j = M ! k ! j - M ! k ! col * (M ! r ! j / M ! r ! col)"
    if "k < ?p" "j < cols" for k j
    using Ei [of k j] that p pr by simp
  have oldpiv: "E ! k ! (pc ! k) = 1" if "k < ?p" for k
    using old [OF that pckc [OF that]] M(4) [OF that] rzero [OF pck [OF that]] by simp
  have oldleft: "E ! k ! j = 0" if "k < ?p" "j < pc ! k" for k j
  proof -
    have j: "j < col" using that pck [OF that(1)] by simp
    then have "j < cols" using col by simp
    from old [OF that(1) this] M(6) [OF that] rzero [OF j] show ?thesis by simp
  qed
  have oldcol: "E ! k ! col = 0" if "k < ?p" for k
    using old [OF that col] nz by simp
  text \<open>the old pivot columns stay unit columns\<close>
  have unit: "E ! i ! (pc ! k) = 0" if "k < ?p" "i < rows" "i \<noteq> k" for i k
  proof (cases "i = ?p")
    case True
    then show ?thesis using Epj [OF pck [OF that(1)]] by simp
  next
    case False
    let ?row = "if i = r then M ! ?p else M ! i"
    have "E ! i ! (pc ! k) = ?row ! (pc ! k) - ?row ! col * (M ! r ! (pc ! k) / M ! r ! col)"
      using Ei [OF that(2) False pckc [OF that(1)]] .
    moreover have "M ! r ! (pc ! k) = 0" using rzero [OF pck [OF that(1)]] .
    moreover have "?row ! (pc ! k) = 0"
      using M(5) [OF that(1) p] M(5) [OF that] that(1) by simp
    ultimately show ?thesis by simp
  qed
  have newcol: "E ! i ! col = 0" if "i < rows" "i \<noteq> ?p" for i
  proof (cases "i < ?p")
    case True
    then show ?thesis by (rule oldcol)
  next
    case False
    with that have "?p < i" by simp
    then show ?thesis using below [OF that(1) _ order_refl] by simp
  qed
  have sorted: "sorted_wrt (<) (pc @ [col])"
    using M(2,3) by (simp add: sorted_wrt_append)
  have bounds: "\<forall>c\<in>set (pc @ [col]). c < Suc col"
    using M(3) by (auto simp add: less_Suc_eq)
  have pivots: "\<forall>k<length (pc @ [col]). E ! k ! ((pc @ [col]) ! k) = 1
             \<and> (\<forall>i<rows. i \<noteq> k \<longrightarrow> E ! i ! ((pc @ [col]) ! k) = 0)
             \<and> (\<forall>j<(pc @ [col]) ! k. E ! k ! j = 0)"
  proof (intro allI impI)
    fix k assume "k < length (pc @ [col])"
    then consider "k < ?p" | "k = ?p" by fastforce
    then show "E ! k ! ((pc @ [col]) ! k) = 1
             \<and> (\<forall>i<rows. i \<noteq> k \<longrightarrow> E ! i ! ((pc @ [col]) ! k) = 0)
             \<and> (\<forall>j<(pc @ [col]) ! k. E ! k ! j = 0)"
    proof cases
      case 1
      then show ?thesis using oldpiv unit oldleft by (simp add: nth_append)
    next
      case 2
      then show ?thesis using Epc newcol Epj by (simp add: nth_append)
    qed
  qed
  have zeros: "\<forall>i<rows. length (pc @ [col]) \<le> i \<longrightarrow> (\<forall>j<Suc col. E ! i ! j = 0)"
    using below by (simp add: less_Suc_eq_le)
  show ?thesis
    unfolding echelon_def using rc p sorted bounds pivots zeros by simp
qed

lemma rref_loop_reduces:
  fixes M :: matrix
  shows "echelon rows cols col pc M \<Longrightarrow> col \<le> cols \<Longrightarrow>
         exact_reduction rows cols col (length pc) M \<Longrightarrow>
         \<exists>pc'. reduced rows cols pc' (rref_loop rows cols col (length pc) M)"
proof (induction "cols - col" arbitrary: col pc M)
  case 0
  then have stop: "\<not> (col < cols \<and> length pc < rows)" by simp
  show ?case
    unfolding rref_loop_done [OF stop] using echelon_final [OF "0.prems"(1,2) stop] by blast
next
  case (Suc d)
  from Suc.hyps(2) have col: "col < cols" and d: "d = cols - Suc col" by simp_all
  let ?p = "length pc"
  show ?case
  proof (cases "?p < rows")
    case False
    then have stop: "\<not> (col < cols \<and> ?p < rows)" by simp
    show ?thesis
      unfolding rref_loop_done [OF stop] using echelon_final [OF Suc.prems(1,2) stop] by blast
  next
    case p: True
    have run: "col < cols \<and> ?p < rows" using col p by simp
    define r where "r = find_max_row M col ?p rows"
    have r: "?p \<le> r" "r < rows"
      and rmax: "\<And>i. ?p \<le> i \<Longrightarrow> i < rows \<Longrightarrow> \<bar>M ! i ! col\<bar> \<le> \<bar>M ! r ! col\<bar>"
      unfolding r_def using find_max_row_props [OF p, where m = M and col = col] by blast+
    have rc: "rect rows cols M" using Suc.prems(1) by (simp add: echelon_def)
    show ?thesis
    proof (cases "\<bar>M ! find_max_row M col ?p rows ! col\<bar> < tol")
      case small: True
      from Suc.prems(3) have z: "M ! r ! col = 0"
        and ex: "exact_reduction rows cols (Suc col) ?p M"
        unfolding exact_reduction_skip [OF run small] r_def by simp_all
      have "M ! i ! col = 0" if "i < rows" "?p \<le> i" for i
        using rmax [OF that(2,1)] z by simp
      then have "echelon rows cols (Suc col) pc M"
        using Suc.prems(1) by (intro echelon_skip)
      from Suc.hyps(1) [OF d this _ ex] col
      show ?thesis unfolding rref_loop_skip [OF run small] by simp
    next
      case big: False
      define swapped where "swapped = swap_rows M ?p r"
      define scaled where "scaled = swapped[?p := scale_row (swapped ! ?p) (swapped ! ?p ! col) cols]"
      define E where "E = eliminate_column scaled ?p col rows cols"
      from Suc.prems(3)
      have exact: "list_all (\<lambda>i. i = ?p \<or> \<bar>scaled ! i ! col\<bar> > tol \<or> scaled ! i ! col = 0) [0..<rows]"
        and ex: "exact_reduction rows cols (Suc col) (Suc ?p) E"
        unfolding exact_reduction_pivot [OF run big] E_def scaled_def swapped_def r_def
        by simp_all
      have nz: "M ! r ! col \<noteq> 0"
        using big tol_pos unfolding r_def by auto
      note ex' = exact [unfolded scaled_def swapped_def]
      have s1: "rect rows cols E"
        unfolding E_def scaled_def swapped_def by (rule pivot_step(1) [OF rc r col nz ex'])
      have s2: "E ! ?p ! j = M ! r ! j / M ! r ! col" if "j < cols" for j
        unfolding E_def scaled_def swapped_def
        using that by (rule pivot_step(2) [OF rc r col nz ex'])
      have s3: "E ! i ! j = (if i = r then M ! ?p else M ! i) ! j
                       - (if i = r then M ! ?p else M ! i) ! col * (M ! r ! j / M ! r ! col)"
        if "i < rows" "i \<noteq> ?p" "j < cols" for i j
        unfolding E_def scaled_def swapped_def
        using that by (rule pivot_step(3) [OF rc r col nz ex'])
      have "echelon rows cols (Suc col) (pc @ [col]) E"
        using Suc.prems(1) r col nz s1 s2 s3 by (rule echelon_pivot)
      from Suc.hyps(1) [OF d this] col ex
      have "\<exists>pc'. reduced rows cols pc' (rref_loop rows cols (Suc col) (Suc ?p) E)" by simp
      then show ?thesis
        unfolding rref_loop_pivot [OF run big] E_def scaled_def swapped_def r_def .
    qed
  qed
qed

text \<open>
  C5, as stated, fails: the elimination leaves an entry whose magnitude is within the
  tolerance, and a second pass works with what the first one left. For
  \<open>[[1, 1], [1/2^34, 1]]\<close> the first pass leaves \<open>1/2^34\<close> below the first pivot and turns
  that pivot into \<open>1 - 1/2^34\<close>; the second pass divides the first row by it.
\<close>

theorem rref_not_idempotent:
  "rref [[1, 1], [1 / 2 ^ 34, 1]] = Inr [[1 - 1 / 2 ^ 34, 0], [1 / 2 ^ 34, 1]]
   \<and> rref [[1 - 1 / 2 ^ 34, 0], [1 / 2 ^ 34, 1]] = Inr [[1, 0], [1 / 2 ^ 34, 1]]
   \<and> [[1 - 1 / 2 ^ 34, 0], [1 / 2 ^ 34, 1]] \<noteq> [[1, 0], [1 / 2 ^ 34, 1 :: real]]"
  by code_simp

text \<open>
  C5, amended, for exact arithmetic: the entries are real numbers, every operation of the
  reduction is the exact one, and the tolerance is the value of the double \<open>1e-10\<close>. For
  every matrix with at least one row and rows of one length, when the exact reduction
  meets no nonzero value within the tolerance (every pivot candidate below the tolerance
  is exactly 0 and every entry the elimination leaves alone is exactly 0), \<open>rref\<close>
  succeeds and applying it to its result gives that result again. Nothing is said here
  about a run on doubles, where rounding leaves residues that the tolerance tests keep.
\<close>

theorem rref_idempotent_exact:
  assumes "isValidMatrix A" and "exact_reduction (length A) (length (A ! 0)) 0 0 A"
  shows "\<exists>R. rref A = Inr R \<and> rref R = Inr R"
proof -
  let ?rows = "length A" and ?cols = "length (A ! 0)"
  have ne: "A \<noteq> []" and rc: "rect ?rows ?cols A"
    using assms(1) by (simp_all add: isValidMatrix_def rect_def)
  have "echelon ?rows ?cols 0 [] A"
    using rc by (simp add: echelon_def)
  from rref_loop_reduces [OF this] assms(2)
  obtain pc where "reduced ?rows ?cols pc (rref_loop ?rows ?cols 0 0 A)" by auto
  moreover have "0 < ?rows" using ne by simp
  ultimately have "rref (rref_loop ?rows ?cols 0 0 A) = Inr (rref_loop ?rows ?cols 0 0 A)"
    by (rule rref_fixed)
  then show ?thesis using ne by (simp add: rref_def)
qed

theorem rref_idempotent_exact_witness:
  "isValidMatrix [[1, 2, 3], [2, 4, 6], [1, 0, 1]]
   \<and> exact_reduction (length [[1, 2, 3], [2, 4, 6], [1, 0, 1 :: real]])
        (length ([[1, 2, 3], [2, 4, 6], [1, 0, 1 :: real]] ! 0)) 0 0
        [[1, 2, 3], [2, 4, 6], [1, 0, 1]]
   \<and> rref [[1, 2, 3], [2, 4, 6], [1, 0, 1]] = Inr [[1, 0, 1], [0, 1, 1], [0, 0, 0]]
   \<and> rref [[1, 0, 1], [0, 1, 1], [0, 0, 0]] = Inr [[1, 0, 1], [0, 1, 1], [0, 0, 0]]"
proof -
  let ?A = "[[1, 2, 3], [2, 4, 6], [1, 0, 1]] :: matrix"
  have v: "isValidMatrix ?A" by (simp add: isValidMatrix_def)
  have e: "exact_reduction (length ?A) (length (?A ! 0)) 0 0 ?A" by code_simp
  have r: "rref ?A = Inr [[1, 0, 1], [0, 1, 1], [0, 0, 0]]" by code_simp
  from rref_idempotent_exact [OF v e] r
  have "rref [[1, 0, 1], [0, 1, 1], [0, 0, 0]] = Inr [[1, 0, 1], [0, 1, 1], [0, 0, 0]]"
    by auto
  with v e r show ?thesis by blast
qed

section \<open>Inputs are not changed, results are new\<close>

lemma frame_refl: "frame h h"
  by (simp add: frame_def)

lemma frame_trans: "frame a b \<Longrightarrow> frame b c \<Longrightarrow> frame a c"
proof -
  assume ab: "frame a b" and bc: "frame b c"
  then have len: "length a \<le> length b" "length b \<le> length c" by (simp_all add: frame_def)
  have "take (length a) c = take (length a) (take (length b) c)"
    using len by (simp add: min_def)
  also have "\<dots> = take (length a) b" using bc by (simp add: frame_def)
  also have "\<dots> = a" using ab by (simp add: frame_def)
  finally show ?thesis using len by (simp add: frame_def)
qed

lemma frame_append: "frame h (h @ xs)"
  by (simp add: frame_def)

lemma frame_update: "frame h0 h \<Longrightarrow> length h0 \<le> r \<Longrightarrow> frame h0 (h[r := v])"
  by (simp add: frame_def)

lemma frame_nth: "frame h h' \<Longrightarrow> a < length h \<Longrightarrow> h' ! a = h ! a"
  by (metis frame_def nth_take)

lemma refs_update_other: "r \<noteq> c \<Longrightarrow> refs (h[r := v]) c = refs h c"
  by (simp add: refs_def)

lemma refs_update_same: "c < length h \<Longrightarrow> refs (h[c := Refs rs]) c = rs"
  by (simp add: refs_def)

lemma frame_matrix_at:
  assumes "frame h h'" and "a < length h" and "\<forall>r\<in>set (refs h a). r < length h"
  shows "matrix_at h' a = matrix_at h a"
proof -
  have len: "length h \<le> length h'" using assms(1) by (simp add: frame_def)
  have r: "refs h' a = refs h a"
    using frame_nth [OF assms(1,2)] assms(2) len by (simp add: refs_def)
  have "nums h' r = nums h r" if "r \<in> set (refs h a)" for r
  proof -
    have "r < length h" using assms(3) that by simp
    then show ?thesis using frame_nth [OF assms(1), of r] len by (simp add: nums_def)
  qed
  then show ?thesis by (simp add: matrix_at_def r)
qed

lemma frame_nums: "frame h h' \<Longrightarrow> a < length h \<Longrightarrow> nums h' a = nums h a"
  by (simp add: nums_def frame_nth frame_def)

lemma alloc_matrix_frame: "frame h (snd (alloc_matrix h m))"
  by (simp add: alloc_matrix_def frame_append)

lemma alloc_matrix_fresh: "length h \<le> fst (alloc_matrix h m)"
  by (simp add: alloc_matrix_def)

lemma alloc_matrix_owned:
  assumes "frame h0 h" and "alloc_matrix h m = (c, h1)"
  shows "owned h0 h1 c"
proof -
  have c: "c = length h + length m" and h1: "h1 = h @ map Nums m @ [Refs [length h..<length h + length m]]"
    using assms(2) by (auto simp add: alloc_matrix_def)
  have "h1 ! c = Refs [length h..<length h + length m]"
    unfolding h1 c by (simp add: nth_append)
  moreover have "c < length h1" unfolding h1 c by simp
  ultimately have "refs h1 c = [length h..<length h + length m]" by (simp add: refs_def)
  moreover have "length h0 \<le> length h" using assms(1) by (simp add: frame_def)
  moreover have "frame h0 h1" using assms(1) frame_append [of h] unfolding h1 by (rule frame_trans)
  ultimately show ?thesis unfolding owned_def c by auto
qed

lemma owned_frame: "owned h0 h c \<Longrightarrow> frame h0 h"
  by (simp add: owned_def)

lemma owned_set_entry: "owned h0 h c \<Longrightarrow> owned h0 (set_entry h c i j v) c"
proof -
  assume o: "owned h0 h c"
  show ?thesis
  proof (cases "i < length (refs h c)")
    case False
    show ?thesis using o by (simp add: set_entry_def False)
  next
    case True
    let ?r = "refs h c ! i"
    have r: "length h0 \<le> ?r" "?r \<noteq> c" using o True by (auto simp add: owned_def)
    have "refs (h[?r := Nums ((nums h ?r)[j := v])]) c = refs h c"
      using r(2) by (rule refs_update_other)
    then show ?thesis
      using o r True by (simp add: set_entry_def owned_def frame_update)
  qed
qed

lemma owned_swap_refs: "owned h0 h c \<Longrightarrow> owned h0 (swap_refs h c p q) c"
proof -
  assume o: "owned h0 h c"
  show ?thesis
  proof (cases "p < length (refs h c) \<and> q < length (refs h c)")
    case False
    show ?thesis using o by (simp add: swap_refs_def False)
  next
    case True
    let ?rs = "((refs h c)[p := refs h c ! q])[q := refs h c ! p]"
    have sub: "set ?rs \<subseteq> set (refs h c)"
      using True by (auto dest!: set_update_subset_insert [THEN subsetD])
    have "c < length h" using True by (cases "c < length h") (simp_all add: refs_def)
    then have "refs (h[c := Refs ?rs]) c = ?rs" by (rule refs_update_same)
    then show ?thesis
      using o True sub by (auto simp add: swap_refs_def owned_def frame_update)
  qed
qed

lemma foldl_invariant:
  assumes "P s" and "\<And>s x. P s \<Longrightarrow> P (f s x)"
  shows "P (foldl f s xs)"
  using assms(1) by (induction xs arbitrary: s) (simp_all add: assms(2))

lemma owned_scale_row_h: "owned h0 h c \<Longrightarrow> owned h0 (scale_row_h h c i pivot cols) c"
  unfolding scale_row_h_def by (rule foldl_invariant) (simp_all add: owned_set_entry)

lemma owned_subtract_row_h: "owned h0 h c \<Longrightarrow> owned h0 (subtract_row_h h c i factor p cols) c"
  unfolding subtract_row_h_def by (rule foldl_invariant) (simp_all add: owned_set_entry)

lemma owned_eliminate_column_h:
  "owned h0 h c \<Longrightarrow> owned h0 (eliminate_column_h h c p col rows cols) c"
  unfolding eliminate_column_h_def by (rule foldl_invariant) (simp_all add: owned_subtract_row_h)

lemma owned_eliminate_column_all_h:
  "owned h0 h c \<Longrightarrow> owned h0 (eliminate_column_all_h h c i rows cols) c"
  unfolding eliminate_column_all_h_def
  by (rule foldl_invariant) (simp_all add: owned_subtract_row_h)

lemma owned_gaussJordan_step_h:
  "owned h0 h c \<Longrightarrow> owned h0 (gaussJordan_step_h rows cols c h i) c"
  by (simp add: gaussJordan_step_h_def Let_def owned_swap_refs owned_scale_row_h
      owned_eliminate_column_all_h)

lemma owned_rref_loop_h:
  "owned h0 h c \<Longrightarrow> owned h0 (rref_loop_h rows cols col p c h) c"
proof (induction rows cols col p c h rule: rref_loop_h.induct)
  case (1 rows cols col p c h)
  show ?case
  proof (cases "col < cols \<and> p < rows")
    case False
    show ?thesis using "1.prems" by (subst rref_loop_h.simps) (simp add: False)
  next
    case True
    show ?thesis
    proof (cases "\<bar>entry h c (find_max_row (matrix_at h c) col p rows) col\<bar> < tol")
      case small: True
      have "rref_loop_h rows cols col p c h = rref_loop_h rows cols (Suc col) p c h"
        by (subst rref_loop_h.simps) (simp add: True small Let_def)
      then show ?thesis using "1.IH"(1) [OF True refl small "1.prems"] by simp
    next
      case big: False
      let ?h1 = "swap_refs h c p (find_max_row (matrix_at h c) col p rows)"
      let ?h2 = "scale_row_h ?h1 c p (entry ?h1 c p col) cols"
      let ?h3 = "eliminate_column_h ?h2 c p col rows cols"
      have "rref_loop_h rows cols col p c h = rref_loop_h rows cols (Suc col) (Suc p) c ?h3"
        by (subst rref_loop_h.simps) (simp add: True big Let_def)
      moreover have "owned h0 ?h3 c"
        using "1.prems" by (intro owned_eliminate_column_h owned_scale_row_h owned_swap_refs)
      ultimately show ?thesis
        using "1.IH"(2) [OF True refl big refl refl refl refl] by simp
    qed
  qed
qed

lemma alloc_matrixD: "alloc_matrix h m = (c, h1) \<Longrightarrow> frame h h1 \<and> length h \<le> c"
  by (auto simp add: alloc_matrix_def frame_append)

lemma fresh_Inl [simp]: "fresh h (Inl e)"
  by (simp add: fresh_def)

lemma fresh_Inr [simp]: "fresh h (Inr a) = (length h \<le> a)"
  by (simp add: fresh_def)

lemma fresh_mono: "frame h h' \<Longrightarrow> fresh h' result \<Longrightarrow> fresh h result"
  by (cases result) (simp_all add: frame_def)

lemma return_matrixD:
  "return_matrix h result = (res, h') \<Longrightarrow> frame h h' \<and> fresh h res"
  by (cases result) (auto simp add: return_matrix_def frame_refl dest: alloc_matrixD split: prod.splits)

lemma return_vectorD:
  "return_vector h result = (res, h') \<Longrightarrow> frame h h' \<and> fresh h res"
  by (cases result) (auto simp add: return_vector_def alloc_vector_def frame_refl frame_append)

lemma owned_multiply_loops:
  "owned h0 h r \<Longrightarrow> owned h0 (multiply_loops h r a b rows cols inner) r"
  unfolding multiply_loops_def
  by (rule foldl_invariant, assumption, rule foldl_invariant, assumption,
      rule foldl_invariant, assumption, rule owned_set_entry)

lemma multiplyMatrices_hD:
  assumes "multiplyMatrices_h h a b = (res, h')"
  shows "frame h h' \<and> fresh h res"
proof (cases "refs h a = [] \<or> length (nums h (refs h a ! 0)) \<noteq> length (refs h b) \<or> refs h b = []")
  case True
  then show ?thesis using assms by (auto simp add: multiplyMatrices_h_def frame_refl split: if_splits)
next
  case False
  obtain r h1 where c: "createMatrix_h h (length (refs h a)) (length (nums h (refs h b ! 0))) 0 = (r, h1)"
    by (cases "createMatrix_h h (length (refs h a)) (length (nums h (refs h b ! 0))) 0")
  then have o: "owned h h1 r"
    unfolding createMatrix_h_def by (intro alloc_matrix_owned [OF frame_refl])
  have res: "res = Inr r" and h': "h' = multiply_loops h1 r a b (length (refs h a))
      (length (nums h (refs h b ! 0))) (length (nums h (refs h a ! 0)))"
    using assms False by (simp_all add: multiplyMatrices_h_def c)
  have "frame h h'" unfolding h' using o by (intro owned_frame [of _ _ r] owned_multiply_loops)
  moreover have "length h \<le> r" using o by (simp add: owned_def)
  ultimately show ?thesis by (simp add: res)
qed

lemma rref_hD:
  assumes "rref_h h m = (res, h')"
  shows "frame h h' \<and> fresh h res"
proof -
  obtain c h1 where c: "copy_matrix h m = (c, h1)" by (cases "copy_matrix h m")
  then have o: "owned h h1 c"
    unfolding copy_matrix_def by (intro alloc_matrix_owned [OF frame_refl])
  have lc: "length h \<le> c" using o by (simp add: owned_def)
  show ?thesis
  proof (cases "refs h1 c = []")
    case True
    then show ?thesis using assms owned_frame [OF o] by (auto simp add: rref_h_def c)
  next
    case False
    then have "res = Inr c" and "h' = rref_loop_h (length (refs h1 c))
        (length (nums h1 (refs h1 c ! 0))) 0 0 c h1"
      using assms by (simp_all add: rref_h_def c)
    then show ?thesis
      using owned_frame [OF owned_rref_loop_h [OF o]] lc by simp
  qed
qed

lemma rank_hD:
  assumes "rank_h h m = (res, h')"
  shows "frame h h'"
proof -
  obtain r h1 where r: "rref_h h m = (r, h1)" by (cases "rref_h h m")
  then have "h' = h1" using assms by (cases r) (simp_all add: rank_h_def)
  then show ?thesis using rref_hD [OF r] by simp
qed

lemma gaussJordan_hD:
  assumes "gaussJordan_h h m = (res, h')"
  shows "frame h h' \<and> fresh h res"
proof -
  obtain c h1 where c: "copy_matrix h m = (c, h1)" by (cases "copy_matrix h m")
  then have o: "owned h h1 c"
    unfolding copy_matrix_def by (intro alloc_matrix_owned [OF frame_refl])
  have lc: "length h \<le> c" using o by (simp add: owned_def)
  show ?thesis
  proof (cases "refs h1 c = []")
    case True
    then show ?thesis using assms owned_frame [OF o] by (auto simp add: gaussJordan_h_def c)
  next
    case False
    then have "res = Inr c" and "h' = foldl (gaussJordan_step_h (length (refs h1 c))
                         (length (nums h1 (refs h1 c ! 0))) c) h1
                      [0..<min (length (refs h1 c)) (length (nums h1 (refs h1 c ! 0)))]"
      using assms by (simp_all add: gaussJordan_h_def c)
    moreover have "owned h (foldl (gaussJordan_step_h rows cols c) h1 xs) c" for rows cols xs
      by (rule foldl_invariant) (simp_all add: o owned_gaussJordan_step_h)
    then have "frame h (foldl (gaussJordan_step_h rows cols c) h1 xs)" for rows cols xs
      by (rule owned_frame)
    ultimately show ?thesis
      using lc by simp
  qed
qed

lemma inverse_hD:
  assumes "inverse_h h m = (res, h')"
  shows "frame h h' \<and> fresh h res"
proof -
  let ?M = "matrix_at h m"
  show ?thesis
  proof (cases "?M = [] \<or> length ?M \<noteq> length (?M ! 0)")
    case True
    then have "res = Inl TypeError \<or> res = Inl NotSquare" and "h' = h"
      using assms by (auto simp add: inverse_h_def Let_def split: if_splits)
    then show ?thesis by (auto simp add: frame_refl)
  next
    case shape: False
    show ?thesis
    proof (cases "determinant ?M")
      case (Inl e)
      then have "res = Inl e" and "h' = h"
        using assms shape by (simp_all add: inverse_h_def Let_def)
      then show ?thesis by (simp add: frame_refl)
    next
      case (Inr det)
      show ?thesis
      proof (cases "\<bar>det\<bar> < tol")
        case True
        then have "res = Inl Singular" and "h' = h"
          using assms shape Inr by (simp_all add: inverse_h_def Let_def)
        then show ?thesis by (simp add: frame_refl)
      next
        case regular: False
        show ?thesis
        proof (cases "length ?M = 2")
          case True
          then have "return_matrix h (Inr [[?M ! 1 ! 1 / det, - (?M ! 0 ! 1) / det],
                                       [- (?M ! 1 ! 0) / det, ?M ! 0 ! 0 / det]]) = (res, h')"
            using assms shape Inr regular by (simp add: inverse_h_def Let_def)
          then show ?thesis by (rule return_matrixD)
        next
          case large: False
          obtain aug h1 where a: "alloc_matrix h (augment_identity ?M) = (aug, h1)"
            by (cases "alloc_matrix h (augment_identity ?M)")
          obtain g h2 where g: "gaussJordan_h h1 aug = (g, h2)" by (cases "gaussJordan_h h1 aug")
          have f1: "frame h h1" using alloc_matrixD [OF a] by simp
          have f2: "frame h h2" using f1 gaussJordan_hD [OF g] by (blast intro: frame_trans)
          have unfold: "inverse_h h m =
              (case (g, h2) of
                 (Inl e, h2) \<Rightarrow> (Inl e, h2)
               | (Inr g, h2) \<Rightarrow>
                   return_matrix h2 (Inr (map (drop (length ?M)) (take (length ?M) (matrix_at h2 g)))))"
            using shape Inr regular large by (simp add: inverse_h_def Let_def a g)
          show ?thesis
          proof (cases g)
            case (Inl e)
            then have "res = Inl e" and "h' = h2" using assms unfold by simp_all
            then show ?thesis using f2 by simp
          next
            case (Inr gaddr)
            then have "return_matrix h2 (Inr (map (drop (length ?M))
                         (take (length ?M) (matrix_at h2 gaddr)))) = (res, h')"
              using assms unfold by simp
            from return_matrixD [OF this] f2 show ?thesis
              by (blast intro: frame_trans fresh_mono)
          qed
        qed
      qed
    qed
  qed
qed

lemma identity_hD:
  assumes "identity_h h n = (c, h')"
  shows "frame h h' \<and> length h \<le> c"
proof -
  obtain c1 h1 where c: "createMatrix_h h n n 0 = (c1, h1)" by (cases "createMatrix_h h n n 0")
  then have o: "owned h h1 c1"
    unfolding createMatrix_h_def by (intro alloc_matrix_owned [OF frame_refl])
  have "c = c1" and "h' = foldl (\<lambda>h i. set_entry h c1 i i 1) h1 [0..<n]"
    using assms by (auto simp add: identity_h_def c)
  moreover have "owned h (foldl (\<lambda>h i. set_entry h c1 i i 1) h1 xs) c1" for xs
    by (rule foldl_invariant) (simp_all add: o owned_set_entry)
  then have "frame h (foldl (\<lambda>h i. set_entry h c1 i i 1) h1 xs)" for xs
    by (rule owned_frame)
  ultimately show ?thesis using o by (simp add: owned_def)
qed

lemma power_loop:
  assumes "frame h0 h"
    and "foldl (\<lambda>(result, h) i. case result of
                                     Inl e \<Rightarrow> (Inl e, h)
                                   | Inr r \<Rightarrow> multiplyMatrices_h h r A) (result, h) xs = (res, h')"
  shows "frame h0 h' \<and> (xs \<noteq> [] \<or> fresh h0 result \<longrightarrow> fresh h0 res)"
  using assms
proof (induction xs arbitrary: result h)
  case Nil
  then show ?case by simp
next
  case (Cons x xs)
  obtain r1 h1 where s: "(case result of Inl e \<Rightarrow> (Inl e, h) | Inr r \<Rightarrow> multiplyMatrices_h h r A) = (r1, h1)"
    by (cases "case result of Inl e \<Rightarrow> (Inl e, h) | Inr r \<Rightarrow> multiplyMatrices_h h r A")
  have "frame h h1 \<and> fresh h r1"
  proof (cases result)
    case (Inl e)
    then show ?thesis using s by (auto simp add: frame_refl)
  next
    case (Inr r)
    then show ?thesis using s multiplyMatrices_hD by simp
  qed
  then have f: "frame h0 h1" and r: "fresh h0 r1"
    using Cons.prems(1) by (blast intro: frame_trans fresh_mono)+
  from Cons.prems(2) have "foldl (\<lambda>(result, h) i. case result of
                                     Inl e \<Rightarrow> (Inl e, h)
                                   | Inr r \<Rightarrow> multiplyMatrices_h h r A) (r1, h1) xs = (res, h')"
    by (simp add: s)
  from Cons.IH [OF f this] r show ?case by simp
qed

lemma matrixPower_hD:
  assumes "matrixPower_h h A pow = (res, h')"
  shows "frame h h' \<and> (0 \<le> pow \<and> pow \<noteq> 1 \<longrightarrow> fresh h res) \<and> (pow = 1 \<longrightarrow> res = Inr A \<and> h' = h)"
proof -
  consider "pow = 0" | "pow = 1" | "pow \<noteq> 0" "pow \<noteq> 1" by blast
  then show ?thesis
  proof cases
    case 1
    obtain c h1 where i: "identity_h h (length (refs h A)) = (c, h1)"
      by (cases "identity_h h (length (refs h A))")
    then have "res = Inr c" "h' = h1" using assms 1 by (simp_all add: matrixPower_h_def)
    then show ?thesis using identity_hD [OF i] 1 by simp
  next
    case 2
    then show ?thesis using assms by (simp add: matrixPower_h_def frame_refl)
  next
    case 3
    then have loop: "foldl (\<lambda>(result, h) i. case result of
                                     Inl e \<Rightarrow> (Inl e, h)
                                   | Inr r \<Rightarrow> multiplyMatrices_h h r A) (Inr A, h) [1..<nat pow]
                     = (res, h')"
      using assms by (simp add: matrixPower_h_def)
    have "[1..<nat pow] \<noteq> []" if "0 \<le> pow" using that 3 by simp
    then show ?thesis using power_loop [OF frame_refl loop] 3 by auto
  qed
qed

text \<open>
  C8, as stated, fails in its second half: \<open>matrixPower\<close> with exponent 1 executes
  \<open>return A\<close>, so the result is the input array itself.
\<close>

theorem matrixPower_returns_input:
  "matrixPower_h [Nums [2, 1], Nums [4, 3], Refs [0, 1]] 2 1 =
     (Inr 2, [Nums [2, 1], Nums [4, 3], Refs [0, 1]])
   \<and> \<not> fresh [Nums [2, 1], Nums [4, 3], Refs [0, 1]] (Inr 2)"
  by (simp add: matrixPower_h_def fresh_def)

text \<open>
  C8, amended. After each core operation every array that existed before the call is in
  the store unchanged, so the contents of every input matrix and vector are what they
  were. An operation that returns a matrix or a vector returns an address that was not in
  use before the call, except \<open>matrixPower\<close> with exponent 1, which returns its input.
  The operations that return a number leave the store as it is. The last part spells out
  what \<open>frame\<close> gives for the arrays, vectors and matrices of the store before the call.
\<close>

theorem core_operations_frame:
  "frame h (snd (addMatrices_h h a b)) \<and> fresh h (fst (addMatrices_h h a b))
   \<and> frame h (snd (subtractMatrices_h h a b)) \<and> fresh h (fst (subtractMatrices_h h a b))
   \<and> frame h (snd (scalarMultiply_h h a c)) \<and> fresh h (fst (scalarMultiply_h h a c))
   \<and> frame h (snd (multiplyMatrices_h h a b)) \<and> fresh h (fst (multiplyMatrices_h h a b))
   \<and> frame h (snd (transpose_h h a)) \<and> fresh h (fst (transpose_h h a))
   \<and> snd (determinant_h h a) = h
   \<and> frame h (snd (inverse_h h a)) \<and> fresh h (fst (inverse_h h a))
   \<and> frame h (snd (rref_h h a)) \<and> fresh h (fst (rref_h h a))
   \<and> frame h (snd (rank_h h a))
   \<and> frame h (snd (matrixPower_h h a pow))
   \<and> (0 \<le> pow \<and> pow \<noteq> 1 \<longrightarrow> fresh h (fst (matrixPower_h h a pow)))
   \<and> matrixPower_h h a 1 = (Inr a, h)
   \<and> snd (dotProduct_h h u v) = h
   \<and> frame h (snd (crossProduct_h h u v)) \<and> fresh h (fst (crossProduct_h h u v))
   \<and> snd (vectorMagnitude_h h u) = h
   \<and> frame h (snd (normalizeVector_h h u)) \<and> fresh h (fst (normalizeVector_h h u))
   \<and> snd (angleBetweenVectors_h h u v) = h
   \<and> (\<forall>h'. frame h h' \<longrightarrow>
         (\<forall>x<length h. h' ! x = h ! x)
         \<and> (\<forall>x<length h. nums h' x = nums h x)
         \<and> (\<forall>x<length h. (\<forall>r\<in>set (refs h x). r < length h) \<longrightarrow> matrix_at h' x = matrix_at h x))"
proof -
  have m: "frame h (snd (return_matrix h r)) \<and> fresh h (fst (return_matrix h r))" for r
    using return_matrixD [of h r] by (cases "return_matrix h r") simp
  have v: "frame h (snd (return_vector h r)) \<and> fresh h (fst (return_vector h r))" for r
    using return_vectorD [of h r] by (cases "return_vector h r") simp
  have mul: "frame h (snd (multiplyMatrices_h h a b)) \<and> fresh h (fst (multiplyMatrices_h h a b))"
    using multiplyMatrices_hD [of h a b] by (cases "multiplyMatrices_h h a b") simp
  have inv: "frame h (snd (inverse_h h a)) \<and> fresh h (fst (inverse_h h a))"
    using inverse_hD [of h a] by (cases "inverse_h h a") simp
  have rr: "frame h (snd (rref_h h a)) \<and> fresh h (fst (rref_h h a))"
    using rref_hD [of h a] by (cases "rref_h h a") simp
  have rk: "frame h (snd (rank_h h a))"
    using rank_hD [of h a] by (cases "rank_h h a") simp
  have pw: "frame h (snd (matrixPower_h h a pow))
            \<and> (0 \<le> pow \<and> pow \<noteq> 1 \<longrightarrow> fresh h (fst (matrixPower_h h a pow)))"
    using matrixPower_hD [of h a pow] by (cases "matrixPower_h h a pow") simp
  have p1: "matrixPower_h h a 1 = (Inr a, h)" by (simp add: matrixPower_h_def)
  have fr: "\<forall>h'. frame h h' \<longrightarrow>
         (\<forall>x<length h. h' ! x = h ! x)
         \<and> (\<forall>x<length h. nums h' x = nums h x)
         \<and> (\<forall>x<length h. (\<forall>r\<in>set (refs h x). r < length h) \<longrightarrow> matrix_at h' x = matrix_at h x)"
    by (simp add: frame_nth frame_nums frame_matrix_at)
  show ?thesis
    using m v mul inv rr rk pw p1 fr
    by (simp add: addMatrices_h_def subtractMatrices_h_def scalarMultiply_h_def transpose_h_def
        determinant_h_def dotProduct_h_def crossProduct_h_def vectorMagnitude_h_def
        normalizeVector_h_def angleBetweenVectors_h_def)
qed

theorem core_operations_frame_witness:
  "(0::int) \<le> 2 \<and> (2::int) \<noteq> 1
   \<and> matrixPower_h [Nums [3], Refs [0]] 1 2 = (Inr 3, [Nums [3], Refs [0], Nums [9], Refs [2]])
   \<and> fresh [Nums [3], Refs [0]] (Inr 3)
   \<and> frame [Nums [3], Refs [0]] [Nums [3], Refs [0], Nums [9], Refs [2]]
   \<and> matrix_at [Nums [3], Refs [0], Nums [9], Refs [2]] 1 = [[3]]"
proof -
  let ?h = "[Nums [3], Refs [0]]"
  let ?h' = "[Nums [3], Refs [0], Nums [9], Refs [2]]"
  have run: "matrixPower_h ?h 1 2 = (Inr 3, ?h')" by code_simp
  have old: "matrix_at ?h 1 = [[3]]" by code_simp
  have wf: "(1::nat) < length ?h" "\<forall>r\<in>set (refs ?h 1). r < length ?h"
    by (simp_all add: refs_def)
  note t = core_operations_frame [of ?h 1 1 0 2 0 0]
  have f: "frame ?h (snd (matrixPower_h ?h 1 2))" using t by blast
  have r: "fresh ?h (fst (matrixPower_h ?h 1 2))" using t by simp
  have f': "frame ?h ?h'" using f by (simp only: run snd_conv)
  have r': "fresh ?h (Inr 3)" using r by (simp only: run fst_conv)
  have "\<forall>h'. frame ?h h' \<longrightarrow>
         (\<forall>x<length ?h. h' ! x = ?h ! x)
         \<and> (\<forall>x<length ?h. nums h' x = nums ?h x)
         \<and> (\<forall>x<length ?h. (\<forall>r\<in>set (refs ?h x). r < length ?h) \<longrightarrow> matrix_at h' x = matrix_at ?h x)"
    using t by blast
  then have "matrix_at ?h' 1 = matrix_at ?h 1" using f' wf by blast
  with run f' r' old show ?thesis by simp
qed

section \<open>Matrix power on the non-negative exponents\<close>

text \<open>
  On a valid square matrix \<open>matrixPower\<close> returns for every exponent \<open>n \<ge> 0\<close>: the identity
  at 0, the matrix at 1 and the repeated product from 2 on. The dispatcher
  \<open>calculateMatrixFunction\<close> agrees with it at every exponent but 0.
\<close>

lemma power_loop_repeated:
  "foldl (\<lambda>result i. case result of Inl e \<Rightarrow> Inl e | Inr r \<Rightarrow> multiplyMatrices r A)
         (Inr A) [1..<Suc k] = repeated_product A k"
  by (induction k) simp_all

lemma multiply_square:
  assumes "is_square n r" and "is_square n A" and "0 < n"
  shows "\<exists>p. multiplyMatrices r A = Inr p \<and> is_square n p"
proof -
  have r: "length r = n" "r \<noteq> []" "length (r ! 0) = n"
    and A: "length A = n" "A \<noteq> []" "length (A ! 0) = n"
    using assms by (auto simp add: is_square_def list_all_length)
  let ?p = "map (\<lambda>i. map (\<lambda>j. foldl (\<lambda>s k. s + r ! i ! k * A ! k ! j) 0 [0..<n]) [0..<n]) [0..<n]"
  have "multiplyMatrices r A = Inr ?p" using r A by (simp add: multiplyMatrices_def)
  moreover have "is_square n ?p" by (simp add: is_square_def list_all_length)
  ultimately show ?thesis by blast
qed

lemma repeated_product_square:
  assumes "is_square n A" and "0 < n"
  shows "\<exists>p. repeated_product A k = Inr p \<and> is_square n p"
proof (induction k)
  case 0
  show ?case using assms by simp
next
  case (Suc k)
  then obtain r where r: "repeated_product A k = Inr r" "is_square n r" by blast
  from multiply_square [OF r(2) assms] show ?case by (simp add: r(1))
qed

lemma matrixPower_cases:
  assumes "isValidMatrix A" and "length A = length (A ! 0)" and "0 \<le> n"
  shows "matrixPower A 0 = Inr (identity_matrix (length A))"
    and "matrixPower A 1 = Inr A"
    and "2 \<le> n \<Longrightarrow> matrixPower A n = repeated_product A (nat n - 1)"
    and "\<exists>p. matrixPower A n = Inr p"
    and "calculateMatrixFunction A ''power'' (Some n) =
           (if n = 0 then Inl InvalidPower else matrixPower A n)"
proof -
  show z: "matrixPower A 0 = Inr (identity_matrix (length A))" by (simp add: matrixPower_def)
  show o: "matrixPower A 1 = Inr A" by (simp add: matrixPower_def)
  show l: "matrixPower A n = repeated_product A (nat n - 1)" if "2 \<le> n"
  proof -
    define k where "k = nat n - 2"
    have k: "nat n = Suc (Suc k)" using that by (simp add: k_def)
    have "matrixPower A n =
          foldl (\<lambda>result i. case result of Inl e \<Rightarrow> Inl e | Inr r \<Rightarrow> multiplyMatrices r A)
                (Inr A) [1..<Suc (Suc k)]"
      using that by (simp add: matrixPower_def k del: upt_Suc)
    then show ?thesis by (simp only: power_loop_repeated k diff_Suc_1)
  qed
  have sq: "is_square (length A) A" "0 < length A"
    using assms(1,2) by (auto simp add: isValidMatrix_def is_square_def)
  show "\<exists>p. matrixPower A n = Inr p"
  proof -
    consider "n = 0" | "n = 1" | "2 \<le> n" using assms(3) by linarith
    then show ?thesis
    proof cases
      case 3
      then show ?thesis using l repeated_product_square [OF sq] by metis
    qed (simp_all add: z o)
  qed
  show "calculateMatrixFunction A ''power'' (Some n) =
           (if n = 0 then Inl InvalidPower else matrixPower A n)"
    using assms by (simp add: calculateMatrixFunction_def isValidMatrix_def)
qed

section \<open>The classification made by the solver\<close>

text \<open>
  The row reduction keeps the shape of its argument, so on a valid coefficient matrix the
  solver reduces an augmented matrix with one column more and always returns a
  \<open>Solution\<close>. Its type follows the three cases of the scan: an inconsistent row, as many
  pivots as variables, or fewer. When the pivot columns are distinct and \<open>i\<close> counts
  pivots, the reconstruction stores the augmented entry of row \<open>i\<close> at the \<open>i\<close>-th pivot
  column.
\<close>

lemma swap_rows_rect:
  assumes "rect rows cols m" and "p < rows" and "q < rows"
  shows "rect rows cols (swap_rows m p q)"
proof (rule rectI)
  show "length (swap_rows m p q) = rows" using assms(1) by (simp add: swap_rows_length rect_length)
  show "length (swap_rows m p q ! i) = cols" if "i < rows" for i
    using assms that by (simp add: swap_rows_nth rect_length rect_row)
qed

lemma eliminate_column_rect:
  assumes "rect rows cols m" and "p < rows"
  shows "rect rows cols (eliminate_column m p col rows cols)"
proof (rule rectI)
  have len: "length m = rows" using assms(1) by (rule rect_length)
  show "length (eliminate_column m p col rows cols) = rows"
    using len assms(2) by (rule eliminate_column_length)
  show "length (eliminate_column m p col rows cols ! i) = cols" if "i < rows" for i
    using eliminate_column_nth [OF len assms(2) that] rect_row [OF assms(1) that]
    by (simp add: subtract_row_length)
qed

lemma scale_rect:
  assumes "rect rows cols m" and "p < rows"
  shows "rect rows cols (m[p := scale_row (m ! p) pivot cols])"
proof (rule rectI)
  show "length (m[p := scale_row (m ! p) pivot cols]) = rows"
    using assms(1) by (simp add: rect_length)
  show "length (m[p := scale_row (m ! p) pivot cols] ! i) = cols" if "i < rows" for i
    using assms that rect_row [OF assms(1)]
    by (cases "i = p") (simp_all add: rect_length scale_row_length)
qed

lemma rref_loop_rect:
  "rect rows cols m \<Longrightarrow> rect rows cols (rref_loop rows cols col p m)"
proof (induction rows cols col p m rule: rref_loop.induct)
  case (1 rows cols col p m)
  show ?case
  proof (cases "col < cols \<and> p < rows")
    case False
    show ?thesis by (simp only: rref_loop_done [OF False] "1.prems")
  next
    case True
    then have p: "p < rows" by simp
    show ?thesis
    proof (cases "\<bar>m ! find_max_row m col p rows ! col\<bar> < tol")
      case small: True
      show ?thesis
        unfolding rref_loop_skip [OF True small]
        using "1.IH"(1) [OF True refl small "1.prems"] .
    next
      case big: False
      let ?r = "find_max_row m col p rows"
      have r: "?r < rows" using find_max_row_props(2) [OF p] .
      have "rect rows cols (eliminate_column
              ((swap_rows m p ?r)[p := scale_row (swap_rows m p ?r ! p)
                 (swap_rows m p ?r ! p ! col) cols]) p col rows cols)"
        using "1.prems" p r by (intro eliminate_column_rect scale_rect swap_rows_rect)
      then show ?thesis
        unfolding rref_loop_pivot [OF True big]
        using "1.IH"(2) [OF True refl big refl refl refl refl] by simp
    qed
  qed
qed

lemma rref_shape:
  assumes "isValidMatrix m"
  shows "\<exists>R. rref m = Inr R \<and> rect (length m) (length (m ! 0)) R"
proof -
  have "m \<noteq> []" and "rect (length m) (length (m ! 0)) m"
    using assms by (simp_all add: isValidMatrix_def rect_def)
  then show ?thesis using rref_loop_rect by (simp add: rref_def)
qed

lemma reconstruct_loop:
  assumes "distinct pc" and "\<forall>c\<in>set pc. c < n" and "k \<le> length pc"
  shows "length (foldl (\<lambda>sol i. sol[pc ! i := R ! i ! n]) (replicate n 0) [0..<k]) = n
       \<and> (\<forall>i<k. foldl (\<lambda>sol i. sol[pc ! i := R ! i ! n]) (replicate n 0) [0..<k] ! (pc ! i)
                   = R ! i ! n)"
  using assms(3)
proof (induction k)
  case 0
  show ?case by simp
next
  case (Suc k)
  let ?s = "foldl (\<lambda>sol i. sol[pc ! i := R ! i ! n]) (replicate n 0) [0..<k]"
  from Suc have IH: "length ?s = n" "\<And>i. i < k \<Longrightarrow> ?s ! (pc ! i) = R ! i ! n" by simp_all
  have k: "k < length pc" using Suc.prems by simp
  have kn: "pc ! k < n" using assms(2) k by simp
  have "(?s[pc ! k := R ! k ! n]) ! (pc ! i) = R ! i ! n" if "i < Suc k" for i
  proof (cases "i = k")
    case True
    then show ?thesis using IH(1) kn by simp
  next
    case False
    with that have i: "i < k" by simp
    then have "pc ! i \<noteq> pc ! k" using assms(1) k by (simp add: nth_eq_iff_index_eq)
    then show ?thesis using IH(2) [OF i] by simp
  qed
  then show ?case using IH(1) by simp
qed

lemma reconstruct_nth:
  assumes "distinct pc" and "\<forall>c\<in>set pc. c < n" and "i < length pc"
  shows "reconstruct R n pc ! (pc ! i) = R ! i ! n"
  using reconstruct_loop [OF assms(1,2) order_refl, of R] assms(3) by (simp add: reconstruct_def)

lemma solveByRREF_unfold:
  assumes "A \<noteq> []"
    and "rref (map (\<lambda>i. A ! i @ [b ! i]) [0..<length A]) = Inr R"
    and "n = length (R ! 0) - 1"
  shows "inconsistent_rows R n \<noteq> [] \<Longrightarrow>
           \<exists>sol. solveByRREF A b steps = Inr sol \<and> sol_type sol = NoSolution
                 \<and> sol_solution sol = None \<and> sol_message sol = NoSolutionExists"
    and "inconsistent_rows R n = [] \<Longrightarrow> length (pivot_columns R n) = n \<Longrightarrow>
           \<exists>sol. solveByRREF A b steps = Inr sol \<and> sol_type sol = Unique
                 \<and> sol_solution sol = Some (reconstruct R n (pivot_columns R n))
                 \<and> sol_message sol = UniqueSolutionFound"
    and "inconsistent_rows R n = [] \<Longrightarrow> length (pivot_columns R n) \<noteq> n \<Longrightarrow>
           \<exists>sol. solveByRREF A b steps = Inr sol \<and> sol_type sol = Infinite
                 \<and> sol_solution sol = None
                 \<and> sol_message sol =
                     InfiniteSolutionsExist (int n - int (length (pivot_columns R n)))"
proof -
  have aug: "map (\<lambda>i. A ! i @ [b ! i]) [0..<length A] \<noteq> []" using assms(1) by simp
  {
    assume "inconsistent_rows R n \<noteq> []"
    then obtain i rest where c: "inconsistent_rows R (length (R ! 0) - 1) = i # rest"
      unfolding assms(3) by (cases "inconsistent_rows R (length (R ! 0) - 1)") auto
    show "\<exists>sol. solveByRREF A b steps = Inr sol \<and> sol_type sol = NoSolution
                 \<and> sol_solution sol = None \<and> sol_message sol = NoSolutionExists"
      unfolding solveByRREF_def Let_def assms(2)
      by (simp only: aug if_False sum.case c list.case) simp
  }
  {
    assume c: "inconsistent_rows R n = []" and p: "length (pivot_columns R n) = n"
    show "\<exists>sol. solveByRREF A b steps = Inr sol \<and> sol_type sol = Unique
                 \<and> sol_solution sol = Some (reconstruct R n (pivot_columns R n))
                 \<and> sol_message sol = UniqueSolutionFound"
      using c p unfolding solveByRREF_def Let_def assms(2) assms(3)
      by (simp only: aug if_False sum.case list.case if_True) simp
  }
  {
    assume c: "inconsistent_rows R n = []" and p: "length (pivot_columns R n) \<noteq> n"
    show "\<exists>sol. solveByRREF A b steps = Inr sol \<and> sol_type sol = Infinite
                 \<and> sol_solution sol = None
                 \<and> sol_message sol =
                     InfiniteSolutionsExist (int n - int (length (pivot_columns R n)))"
      using c p unfolding solveByRREF_def Let_def assms(2) assms(3)
      by (simp only: aug if_False sum.case list.case) simp
  }
qed

lemma solveByRREF_classification:
  assumes "isValidMatrix A"
  shows "\<exists>R sol. rref (map (\<lambda>i. A ! i @ [b ! i]) [0..<length A]) = Inr R
       \<and> rect (length A) (Suc (length (A ! 0))) R
       \<and> solveByRREF A b steps = Inr sol
       \<and> (if inconsistent_rows R (length (A ! 0)) \<noteq> [] then
            sol_type sol = NoSolution \<and> sol_solution sol = None
          else if length (pivot_columns R (length (A ! 0))) = length (A ! 0) then
            sol_type sol = Unique
            \<and> sol_solution sol =
                Some (reconstruct R (length (A ! 0)) (pivot_columns R (length (A ! 0))))
          else
            sol_type sol = Infinite \<and> sol_solution sol = None
            \<and> sol_message sol =
                InfiniteSolutionsExist
                  (int (length (A ! 0)) - int (length (pivot_columns R (length (A ! 0))))))"
proof -
  let ?aug = "map (\<lambda>i. A ! i @ [b ! i]) [0..<length A]"
  let ?n = "length (A ! 0)"
  have A1: "A \<noteq> []" using assms by (simp add: isValidMatrix_def)
  have A2: "length (A ! i) = ?n" if "i < length A" for i
    using assms that unfolding isValidMatrix_def list_all_length by blast
  have dims: "length ?aug = length A" "length (?aug ! 0) = Suc ?n"
    using A1 by simp_all
  have v: "isValidMatrix ?aug"
    unfolding isValidMatrix_def list_all_length
  proof (intro conjI allI impI)
    show "?aug \<noteq> []" using A1 by simp
    fix i
    assume "i < length ?aug"
    then have i: "i < length A" by simp
    then have "length (?aug ! i) = Suc (length (A ! i))" by simp
    then show "length (?aug ! i) = length (?aug ! 0)"
      unfolding dims(2) using A2 [OF i] by simp
  qed
  from rref_shape [OF v] obtain R where R: "rref ?aug = Inr R" "rect (length A) (Suc ?n) R"
    unfolding dims by blast
  have n: "?n = length (R ! 0) - 1" using rect_row [OF R(2), of 0] A1 by simp
  note u = solveByRREF_unfold [OF A1 R(1) n, of steps]
  consider "inconsistent_rows R ?n \<noteq> []"
    | "inconsistent_rows R ?n = []" "length (pivot_columns R ?n) = ?n"
    | "inconsistent_rows R ?n = []" "length (pivot_columns R ?n) \<noteq> ?n"
    by blast
  then have "\<exists>sol. solveByRREF A b steps = Inr sol
       \<and> (if inconsistent_rows R ?n \<noteq> [] then
            sol_type sol = NoSolution \<and> sol_solution sol = None
          else if length (pivot_columns R ?n) = ?n then
            sol_type sol = Unique
            \<and> sol_solution sol = Some (reconstruct R ?n (pivot_columns R ?n))
          else
            sol_type sol = Infinite \<and> sol_solution sol = None
            \<and> sol_message sol =
                InfiniteSolutionsExist (int ?n - int (length (pivot_columns R ?n))))"
  proof cases
    case 1
    from u(1) [OF 1] obtain sol where "solveByRREF A b steps = Inr sol"
      "sol_type sol = NoSolution" "sol_solution sol = None" by blast
    with 1 show ?thesis by simp
  next
    case 2
    from u(2) [OF 2] obtain sol where "solveByRREF A b steps = Inr sol"
      "sol_type sol = Unique"
      "sol_solution sol = Some (reconstruct R ?n (pivot_columns R ?n))" by blast
    with 2 show ?thesis by simp
  next
    case 3
    from u(3) [OF 3] obtain sol where "solveByRREF A b steps = Inr sol"
      "sol_type sol = Infinite" "sol_solution sol = None"
      "sol_message sol = InfiniteSolutionsExist (int ?n - int (length (pivot_columns R ?n)))"
      by blast
    with 3 show ?thesis by simp
  qed
  with R show ?thesis by blast
qed

section \<open>The LU trace and the zero pivot\<close>

lemma lu_U_push_step: "lu_U (push_step text ref hl st) = lu_U st"
  by (simp add: push_step_def)

lemma lu_inner_zero_pivot:
  "i < n \<Longrightarrow> \<bar>lu_U st ! k ! k\<bar> < tol \<Longrightarrow>
   lu_inner n k i st = Inl (push_step ErrorZeroPivot WorkingU None st)"
  by (simp add: lu_inner.simps)

lemma lu_outer_zero_pivot:
  assumes "k < n - 1" and "\<bar>lu_U st ! k ! k\<bar> < tol"
  shows "lu_outer n k st =
         Inl (push_step ErrorZeroPivot WorkingU None
               (push_step (WorkingOnColumn (k + 1)) WorkingU
                  (Some \<lparr>hl_row = None, hl_col = Some k, hl_element = None\<rparr>) st))"
proof -
  from assms(1) have "Suc k < n" by simp
  then show ?thesis
    using assms
    by (subst lu_outer.simps) (simp add: lu_inner_zero_pivot lu_U_push_step)
qed

lemma lu_reaches_outer:
  "lu_reaches n st0 k st \<Longrightarrow> lu_outer n 0 st0 = lu_outer n k st"
proof (induction rule: lu_reaches.induct)
  case (start n st0)
  show ?case by simp
next
  case (column n st0 k st st')
  have "lu_outer n k st = lu_outer n (Suc k) st'"
    using column.hyps(2,3) by (subst lu_outer.simps) simp
  with column.IH show ?case by simp
qed

lemma push_step_simps:
  "lu_U (push_step text ref hl st) = lu_U st"
  "lu_L (push_step text ref hl st) = lu_L st"
  "lu_stepId (push_step text ref hl st) = Suc (lu_stepId st)"
  "lu_steps (push_step text ref hl st) =
     lu_steps st @ [\<lparr>step_id = lu_stepId st, step_description = text, step_matrix = ref,
                     step_operation = None, step_highlight = hl\<rparr>]"
  by (simp_all add: push_step_def)

lemma lu_inner_done: "\<not> i < n \<Longrightarrow> lu_inner n k i st = Inr st"
  by (subst lu_inner.simps) simp

lemma lu_inner_step:
  "i < n \<Longrightarrow> \<not> \<bar>lu_U st ! k ! k\<bar> < tol \<Longrightarrow>
   lu_inner n k i st =
     lu_inner n k (Suc i)
       (push_step (EliminateEntry (i + 1) (k + 1) (lu_U st ! i ! k / lu_U st ! k ! k)) WorkingU
          (Some \<lparr>hl_row = None, hl_col = None, hl_element = Some (i, k)\<rparr>)
          (st\<lparr>lu_L := (lu_L st)[i := (lu_L st ! i)[k := lu_U st ! i ! k / lu_U st ! k ! k]],
             lu_U := (lu_U st)[i := foldl (\<lambda>r j. r[j := r ! j
                          - lu_U st ! i ! k / lu_U st ! k ! k * lu_U st ! k ! j])
                        (lu_U st ! i) [k..<n]]\<rparr>))"
  by (subst lu_inner.simps) (simp add: Let_def)

lemma lu_inner_run:
  assumes "\<not> \<bar>lu_U st ! k ! k\<bar> < tol" and "k < i" and "i \<le> n"
    and "length (lu_U st) = n" and "rect n n (lu_L st)"
  shows "\<exists>st'. lu_inner n k i st = Inr st'
      \<and> lu_steps st' =
          lu_steps st @ map (\<lambda>r. eliminate_step (lu_stepId st + (r - i)) r k (lu_L st' ! r ! k))
                            [i..<n]
      \<and> lu_stepId st' = lu_stepId st + (n - i)
      \<and> rect n n (lu_L st') \<and> length (lu_U st') = n
      \<and> (\<forall>r c. r < n \<and> c < n \<and> \<not> (i \<le> r \<and> c = k) \<longrightarrow> lu_L st' ! r ! c = lu_L st ! r ! c)
      \<and> (\<forall>r. i \<le> r \<and> r < n \<longrightarrow> lu_L st' ! r ! k = lu_U st ! r ! k / lu_U st ! k ! k)
      \<and> (\<forall>r<n. lu_U st' ! r =
            (if i \<le> r
             then foldl (\<lambda>row j. row[j := row ! j
                            - lu_U st ! r ! k / lu_U st ! k ! k * lu_U st ! k ! j])
                    (lu_U st ! r) [k..<n]
             else lu_U st ! r))"
  using assms
proof (induction "n - i" arbitrary: i st)
  case 0
  then have "\<not> i < n" and "i = n" by simp_all
  then show ?case using 0 by (simp add: lu_inner_done)
next
  case (Suc d)
  then have i: "i < n" by simp
  let ?U = "lu_U st" and ?L = "lu_L st"
  define f where "f = ?U ! i ! k / ?U ! k ! k"
  define L' where "L' = ?L[i := (?L ! i)[k := f]]"
  define U' where "U' = ?U[i := foldl (\<lambda>r j. r[j := r ! j - f * ?U ! k ! j]) (?U ! i) [k..<n]]"
  define st1 where "st1 = push_step (EliminateEntry (i + 1) (k + 1) f) WorkingU
          (Some \<lparr>hl_row = None, hl_col = None, hl_element = Some (i, k)\<rparr>)
          (st\<lparr>lu_L := L', lu_U := U'\<rparr>)"
  have run: "lu_inner n k i st = lu_inner n k (Suc i) st1"
    unfolding st1_def U'_def L'_def f_def using i Suc.prems(1) by (rule lu_inner_step)
  have ki: "k \<noteq> i" "k < n" using Suc.prems(2) i by simp_all
  have U1: "lu_U st1 = U'" and L1: "lu_L st1 = L'"
    and id1: "lu_stepId st1 = Suc (lu_stepId st)"
    and steps1: "lu_steps st1 = lu_steps st @ [eliminate_step (lu_stepId st) i k f]"
    by (simp_all add: st1_def push_step_simps eliminate_step_def)
  have Uk: "U' ! k = ?U ! k" using ki by (simp add: U'_def)
  have Ui: "U' ! i = foldl (\<lambda>r j. r[j := r ! j - f * ?U ! k ! j]) (?U ! i) [k..<n]"
    using i Suc.prems(4) by (simp add: U'_def)
  have Ur: "U' ! r = ?U ! r" if "r \<noteq> i" for r using that by (simp add: U'_def)
  have lenU: "length U' = n" using Suc.prems(4) by (simp add: U'_def)
  have rectL: "rect n n L'"
  proof (rule rectI)
    show "length L' = n" using Suc.prems(5) by (simp add: L'_def rect_length)
    show "length (L' ! r) = n" if "r < n" for r
      using that rect_row [OF Suc.prems(5)] Suc.prems(5)
      by (cases "r = i") (simp_all add: L'_def rect_length)
  qed
  have p1: "\<not> \<bar>lu_U st1 ! k ! k\<bar> < tol" unfolding U1 Uk using Suc.prems(1) .
  have d: "d = n - Suc i" using Suc.hyps(2) by simp
  from Suc.hyps(1) [OF d p1 _ _ _ ] 
  obtain st' where st': "lu_inner n k (Suc i) st1 = Inr st'"
    "lu_steps st' = lu_steps st1 @
        map (\<lambda>r. eliminate_step (lu_stepId st1 + (r - Suc i)) r k (lu_L st' ! r ! k)) [Suc i..<n]"
    "lu_stepId st' = lu_stepId st1 + (n - Suc i)"
    "rect n n (lu_L st')" "length (lu_U st') = n"
    "\<And>r c. r < n \<Longrightarrow> c < n \<Longrightarrow> \<not> (Suc i \<le> r \<and> c = k) \<Longrightarrow>
        lu_L st' ! r ! c = lu_L st1 ! r ! c"
    "\<And>r. Suc i \<le> r \<Longrightarrow> r < n \<Longrightarrow> lu_L st' ! r ! k = lu_U st1 ! r ! k / lu_U st1 ! k ! k"
    "\<And>r. r < n \<Longrightarrow> lu_U st' ! r =
            (if Suc i \<le> r
             then foldl (\<lambda>row j. row[j := row ! j
                            - lu_U st1 ! r ! k / lu_U st1 ! k ! k * lu_U st1 ! k ! j])
                    (lu_U st1 ! r) [k..<n]
             else lu_U st1 ! r)"
    using Suc.prems(2) i lenU rectL unfolding U1 L1 by (auto simp del: upt_Suc)
  have Li: "length ?L = n" "length (?L ! i) = n"
    using Suc.prems(5) i by (simp_all add: rect_length rect_row)
  have fi: "lu_L st' ! i ! k = f"
    using st'(6) [of i k] i ki Li by (simp add: L1 L'_def)
  have a: "lu_steps st' =
          lu_steps st @ map (\<lambda>r. eliminate_step (lu_stepId st + (r - i)) r k (lu_L st' ! r ! k))
                            [i..<n]"
  proof -
    have "map (\<lambda>r. eliminate_step (lu_stepId st1 + (r - Suc i)) r k (lu_L st' ! r ! k)) [Suc i..<n]
        = map (\<lambda>r. eliminate_step (lu_stepId st + (r - i)) r k (lu_L st' ! r ! k)) [Suc i..<n]"
    proof (rule map_cong [OF refl])
      fix r
      assume "r \<in> set [Suc i..<n]"
      then have "Suc i \<le> r" by simp
      then have "Suc (lu_stepId st) + (r - Suc i) = lu_stepId st + (r - i)" by arith
      then show "eliminate_step (lu_stepId st1 + (r - Suc i)) r k (lu_L st' ! r ! k)
               = eliminate_step (lu_stepId st + (r - i)) r k (lu_L st' ! r ! k)"
        by (simp only: id1)
    qed
    moreover have "[i..<n] = i # [Suc i..<n]" using i by (rule upt_conv_Cons)
    ultimately show ?thesis by (simp add: st'(2) steps1 fi del: upt_Suc)
  qed
  have b: "lu_stepId st' = lu_stepId st + (n - i)" using st'(3) i by (simp add: id1)
  have c: "lu_L st' ! r ! c = ?L ! r ! c" if "r < n" "c < n" "\<not> (i \<le> r \<and> c = k)" for r c
  proof -
    have "lu_L st' ! r ! c = L' ! r ! c" using st'(6) [of r c] that by (simp add: L1)
    also have "\<dots> = ?L ! r ! c" using that Li by (cases "r = i") (auto simp add: L'_def)
    finally show ?thesis .
  qed
  have e: "lu_L st' ! r ! k = ?U ! r ! k / ?U ! k ! k" if "i \<le> r" "r < n" for r
  proof (cases "r = i")
    case True
    then show ?thesis using fi by (simp add: f_def)
  next
    case False
    then have "Suc i \<le> r" using that by simp
    from st'(7) [OF this that(2)] show ?thesis using False by (simp add: U1 Uk Ur)
  qed
  have f: "lu_U st' ! r =
            (if i \<le> r
             then foldl (\<lambda>row j. row[j := row ! j - ?U ! r ! k / ?U ! k ! k * ?U ! k ! j])
                    (?U ! r) [k..<n]
             else ?U ! r)" if "r < n" for r
  proof (cases "r = i")
    case True
    then show ?thesis using st'(8) [OF that] by (simp add: U1 Ui f_def del: upt_Suc)
  next
    case False
    then show ?thesis using st'(8) [OF that] by (auto simp add: U1 Uk Ur simp del: upt_Suc)
  qed
  show ?case
    unfolding run using st'(1,4,5) a b c e f by (intro exI [of _ st']) (simp del: upt_Suc)
qed

lemma set_diagonal_rect:
  "rect n n m \<Longrightarrow> rect n n (foldl (\<lambda>m i. m[i := (m ! i)[i := 1]]) m xs)"
proof (induction xs arbitrary: m)
  case Nil
  then show ?case by simp
next
  case (Cons x xs)
  have "rect n n (m[x := (m ! x)[x := 1]])"
  proof (rule rectI)
    show "length (m[x := (m ! x)[x := 1]]) = n" using Cons.prems by (simp add: rect_length)
    show "length (m[x := (m ! x)[x := 1]] ! r) = n" if "r < n" for r
      using that rect_row [OF Cons.prems] Cons.prems
      by (cases "r = x") (simp_all add: rect_length)
  qed
  from Cons.IH [OF this] show ?case by simp
qed

lemma identity_matrix_rect: "rect n n (identity_matrix n)"
  unfolding identity_matrix_def
  by (rule set_diagonal_rect) (simp add: rect_def createMatrix_def list_all_length)

lemma lu_trace_length: "0 < length (lu_trace n L k)"
  by (induction k) (simp_all add: Let_def)

lemma lu_trace_cong:
  "(\<And>i j. j < k \<Longrightarrow> j < i \<Longrightarrow> i < n \<Longrightarrow> L ! i ! j = L' ! i ! j) \<Longrightarrow>
   lu_trace n L k = lu_trace n L' k"
proof (induction k)
  case 0
  show ?case by simp
next
  case (Suc k)
  have b: "lu_trace n L k = lu_trace n L' k" using Suc.prems by (intro Suc.IH) simp
  have "map (\<lambda>i. eliminate_step (length (lu_trace n L' k) + (i - k)) i k (L ! i ! k)) [Suc k..<n]
      = map (\<lambda>i. eliminate_step (length (lu_trace n L' k) + (i - k)) i k (L' ! i ! k)) [Suc k..<n]"
    by (rule map_cong [OF refl]) (simp add: Suc.prems)
  then show ?case by (simp add: b Let_def del: upt_Suc)
qed

lemma lu_inner_Inr_pivot:
  assumes "lu_inner n k i st = Inr st'" and "i < n"
  shows "\<not> \<bar>lu_U st ! k ! k\<bar> < tol"
proof
  assume "\<bar>lu_U st ! k ! k\<bar> < tol"
  with assms(2) have "lu_inner n k i st = Inl (push_step ErrorZeroPivot WorkingU None st)"
    by (subst lu_inner.simps) simp
  with assms(1) show False by simp
qed

text \<open>One column of the outer loop, from a state at which the pivot is not small.\<close>

lemma lu_column_run:
  assumes "\<not> \<bar>lu_U st ! k ! k\<bar> < tol" and "k < n - 1"
    and "length (lu_U st) = n" and "rect n n (lu_L st)"
    and "lu_steps st = lu_trace n (lu_L st) k" and "lu_stepId st = length (lu_steps st)"
  shows "\<exists>st'. lu_inner n k (Suc k)
                 (push_step (WorkingOnColumn (k + 1)) WorkingU
                    (Some \<lparr>hl_row = None, hl_col = Some k, hl_element = None\<rparr>) st) = Inr st'
      \<and> length (lu_U st') = n \<and> rect n n (lu_L st')
      \<and> lu_steps st' = lu_trace n (lu_L st') (Suc k)
      \<and> lu_stepId st' = length (lu_steps st')
      \<and> lu_U st' = lu_eliminated n k (lu_U st)
      \<and> (\<forall>i. k < i \<and> i < n \<longrightarrow> lu_L st' ! i ! k = lu_U st ! i ! k / lu_U st ! k ! k)
      \<and> (\<forall>i j. i < n \<and> j < n \<and> \<not> (k < i \<and> j = k) \<longrightarrow> lu_L st' ! i ! j = lu_L st ! i ! j)"
proof -
  define sth where "sth = push_step (WorkingOnColumn (k + 1)) WorkingU
                    (Some \<lparr>hl_row = None, hl_col = Some k, hl_element = None\<rparr>) st"
  have h: "lu_U sth = lu_U st" "lu_L sth = lu_L st" "lu_stepId sth = Suc (lu_stepId st)"
    "lu_steps sth = lu_steps st @ [column_step (lu_stepId st) k]"
    by (simp_all add: sth_def push_step_simps column_step_def)
  have k: "k < Suc k" "Suc k \<le> n" using assms(2) by simp_all
  have "\<not> \<bar>lu_U sth ! k ! k\<bar> < tol" "length (lu_U sth) = n" "rect n n (lu_L sth)"
    unfolding h using assms(1,3,4) by - assumption+
  from lu_inner_run [OF this(1) k this(2,3)]
  obtain st' where st': "lu_inner n k (Suc k) sth = Inr st'"
    "lu_steps st' = lu_steps sth @
       map (\<lambda>r. eliminate_step (lu_stepId sth + (r - Suc k)) r k (lu_L st' ! r ! k)) [Suc k..<n]"
    "lu_stepId st' = lu_stepId sth + (n - Suc k)"
    "rect n n (lu_L st')" "length (lu_U st') = n"
    "\<And>r c. r < n \<Longrightarrow> c < n \<Longrightarrow> \<not> (Suc k \<le> r \<and> c = k) \<Longrightarrow> lu_L st' ! r ! c = lu_L sth ! r ! c"
    "\<And>r. Suc k \<le> r \<Longrightarrow> r < n \<Longrightarrow> lu_L st' ! r ! k = lu_U sth ! r ! k / lu_U sth ! k ! k"
    "\<And>r. r < n \<Longrightarrow> lu_U st' ! r =
            (if Suc k \<le> r
             then foldl (\<lambda>row j. row[j := row ! j
                            - lu_U sth ! r ! k / lu_U sth ! k ! k * lu_U sth ! k ! j])
                    (lu_U sth ! r) [k..<n]
             else lu_U sth ! r)"
    by blast
  have before: "lu_trace n (lu_L st') k = lu_steps st"
  proof -
    have "lu_trace n (lu_L st') k = lu_trace n (lu_L st) k"
      by (rule lu_trace_cong) (use st'(6) in \<open>simp add: h\<close>)
    then show ?thesis by (simp add: assms(5))
  qed
  have steps: "lu_steps st' = lu_trace n (lu_L st') (Suc k)"
  proof -
    have "map (\<lambda>r. eliminate_step (lu_stepId sth + (r - Suc k)) r k (lu_L st' ! r ! k)) [Suc k..<n]
        = map (\<lambda>r. eliminate_step (length (lu_steps st) + (r - k)) r k (lu_L st' ! r ! k)) [Suc k..<n]"
    proof (rule map_cong [OF refl])
      fix r
      assume "r \<in> set [Suc k..<n]"
      then have "Suc k \<le> r" by simp
      then have "Suc (length (lu_steps st)) + (r - Suc k) = length (lu_steps st) + (r - k)"
        by arith
      then show "eliminate_step (lu_stepId sth + (r - Suc k)) r k (lu_L st' ! r ! k)
               = eliminate_step (length (lu_steps st) + (r - k)) r k (lu_L st' ! r ! k)"
        by (simp only: h assms(6))
    qed
    then show ?thesis
      by (simp add: st'(2) h before assms(6) Let_def del: upt_Suc)
  qed
  have sid: "lu_stepId st' = length (lu_steps st')"
    by (simp add: st'(2,3) h assms(6))
  have U: "lu_U st' = lu_eliminated n k (lu_U st)"
  proof (rule nth_equalityI)
    show "length (lu_U st') = length (lu_eliminated n k (lu_U st))"
      by (simp add: st'(5) lu_eliminated_def)
    show "lu_U st' ! r = lu_eliminated n k (lu_U st) ! r" if "r < length (lu_U st')" for r
    proof -
      have r: "r < n" using that by (simp add: st'(5))
      show ?thesis
        using st'(8) [OF r] r by (simp add: h lu_eliminated_def Suc_le_eq del: upt_Suc)
    qed
  qed
  have "lu_L st' ! i ! k = lu_U st ! i ! k / lu_U st ! k ! k" if "k < i" "i < n" for i
    using st'(7) [of i] that by (simp add: h)
  moreover have "lu_L st' ! i ! j = lu_L st ! i ! j"
    if "i < n" "j < n" "\<not> (k < i \<and> j = k)" for i j
    using st'(6) [of i j] that by (simp add: h Suc_le_eq)
  ultimately show ?thesis
    using st'(1,4,5) steps sid U unfolding sth_def by blast
qed

text \<open>What holds of every state in which the outer loop arrives at a column.\<close>

lemma lu_reaches_invariant:
  assumes "lu_reaches n st0 k st" and "st0 = lu_init A" and "n = length A" and "0 < n"
  shows "k \<le> n - 1 \<and> length (lu_U st) = n \<and> rect n n (lu_L st)
       \<and> lu_steps st = lu_trace n (lu_L st) k \<and> lu_stepId st = length (lu_steps st)"
  using assms
proof (induction rule: lu_reaches.induct)
  case (start n st0)
  then show ?case
    by (simp add: lu_init_def push_step_def identity_matrix_rect)
next
  case (column n st0 k st st')
  then have inv: "length (lu_U st) = n" "rect n n (lu_L st)"
    "lu_steps st = lu_trace n (lu_L st) k" "lu_stepId st = length (lu_steps st)"
    by simp_all
  have "Suc k < n" using column.hyps(2) by simp
  from lu_inner_Inr_pivot [OF column.hyps(3) this]
  have p: "\<not> \<bar>lu_U st ! k ! k\<bar> < tol" by (simp add: push_step_simps)
  from lu_column_run [OF p column.hyps(2) inv] column.hyps(3)
  show ?case using column.hyps(2) by auto
qed

lemma lu_run_ends:
  assumes "lu_reaches n st0 k st" and "st0 = lu_init A" and "n = length A" and "0 < n"
  shows "\<exists>k' st'. lu_reaches n st0 k' st'
            \<and> (k' = n - 1 \<or> k' < n - 1 \<and> \<bar>lu_U st' ! k' ! k'\<bar> < tol)"
  using assms
proof (induction "n - 1 - k" arbitrary: k st)
  case 0
  from lu_reaches_invariant [OF 0(2-5)] have "k \<le> n - 1" by simp
  with 0(1) have "k = n - 1" by arith
  with 0(2) show ?case by blast
next
  case (Suc d)
  then have k: "k < n - 1" by simp
  show ?case
  proof (cases "\<bar>lu_U st ! k ! k\<bar> < tol")
    case True
    with k Suc.prems(1) show ?thesis by blast
  next
    case False
    from lu_reaches_invariant [OF Suc.prems] have inv: "length (lu_U st) = n"
      "rect n n (lu_L st)" "lu_steps st = lu_trace n (lu_L st) k"
      "lu_stepId st = length (lu_steps st)" by simp_all
    from lu_column_run [OF False k inv] obtain st' where
      "lu_inner n k (Suc k)
         (push_step (WorkingOnColumn (k + 1)) WorkingU
            (Some \<lparr>hl_row = None, hl_col = Some k, hl_element = None\<rparr>) st) = Inr st'"
      by blast
    with Suc.prems(1) k have r: "lu_reaches n st0 (Suc k) st'" by (rule lu_reaches.column)
    have "d = n - 1 - Suc k" using Suc.hyps(2) by simp
    from Suc.hyps(1) [OF this r Suc.prems(2-4)] show ?thesis .
  qed
qed

lemma lu_outer_done: "\<not> k < n - 1 \<Longrightarrow> lu_outer n k st = Inr st"
  by (subst lu_outer.simps) simp

text \<open>
  C7. The traced LU decomposition of a square matrix never throws: it returns a list of
  steps, and its outer loop always ends in one of two ways, at the last column or at a
  column \<open>k\<close> with rows below it whose pivot \<open>U[k][k]\<close> is below \<open>1e-10\<close> in magnitude.
  Whenever the outer loop arrives at a column, the steps produced so far are the
  initial step and, for every earlier column, its announcement and one elimination
  step per row below it, numbered consecutively. If the pivot of the column is small,
  the generator returns exactly these steps followed by the announcement of the
  column and the zero-pivot error step. If it is not, the loop eliminates the column,
  with the quotients as multipliers, and arrives at the next one. At the last column
  the generator returns the steps so far followed by the completion step.
\<close>

theorem generateLUSteps_zero_pivot:
  assumes "isValidMatrix A" and "length A = length (A ! 0)"
  shows "(\<exists>steps. generateLUSteps A = Inr steps)
       \<and> (\<exists>k st. lu_reaches (length A) (lu_init A) k st
              \<and> (k = length A - 1 \<or> k < length A - 1 \<and> \<bar>lu_U st ! k ! k\<bar> < tol))
       \<and> (\<forall>k st. lu_reaches (length A) (lu_init A) k st \<longrightarrow>
            lu_steps st = lu_trace (length A) (lu_L st) k
          \<and> lu_stepId st = length (lu_steps st)
          \<and> (k < length A - 1 \<and> \<bar>lu_U st ! k ! k\<bar> < tol \<longrightarrow>
               generateLUSteps A =
                 Inr (map (resolve A (lu_U st))
                        (lu_trace (length A) (lu_L st) k @
                         [column_step (lu_stepId st) k,
                          \<lparr>step_id = Suc (lu_stepId st), step_description = ErrorZeroPivot,
                           step_matrix = WorkingU, step_operation = None,
                           step_highlight = None\<rparr>])))
          \<and> (k < length A - 1 \<and> \<not> \<bar>lu_U st ! k ! k\<bar> < tol \<longrightarrow>
               (\<exists>st'. lu_reaches (length A) (lu_init A) (Suc k) st'
                   \<and> lu_U st' = lu_eliminated (length A) k (lu_U st)
                   \<and> (\<forall>i. k < i \<and> i < length A \<longrightarrow>
                         lu_L st' ! i ! k = lu_U st ! i ! k / lu_U st ! k ! k)))
          \<and> (k = length A - 1 \<longrightarrow>
               generateLUSteps A =
                 Inr (map (resolve A (lu_U st))
                        (lu_trace (length A) (lu_L st) k @
                         [\<lparr>step_id = lu_stepId st, step_description = LUComplete,
                           step_matrix = WorkingU, step_operation = None,
                           step_highlight = None\<rparr>]))))"
proof -
  let ?n = "length A"
  have ne: "A \<noteq> []" and n: "0 < ?n" using assms(1) by (simp_all add: isValidMatrix_def)
  have total: "\<exists>steps. generateLUSteps A = Inr steps"
    using ne by (simp add: generateLUSteps_def Let_def split: sum.split)
  have ends: "\<exists>k st. lu_reaches ?n (lu_init A) k st
              \<and> (k = ?n - 1 \<or> k < ?n - 1 \<and> \<bar>lu_U st ! k ! k\<bar> < tol)"
    using lu_run_ends [OF lu_reaches.start refl refl n] .
  have each: "lu_steps st = lu_trace ?n (lu_L st) k
          \<and> lu_stepId st = length (lu_steps st)
          \<and> (k < ?n - 1 \<and> \<bar>lu_U st ! k ! k\<bar> < tol \<longrightarrow>
               generateLUSteps A =
                 Inr (map (resolve A (lu_U st))
                        (lu_trace ?n (lu_L st) k @
                         [column_step (lu_stepId st) k,
                          \<lparr>step_id = Suc (lu_stepId st), step_description = ErrorZeroPivot,
                           step_matrix = WorkingU, step_operation = None,
                           step_highlight = None\<rparr>])))
          \<and> (k < ?n - 1 \<and> \<not> \<bar>lu_U st ! k ! k\<bar> < tol \<longrightarrow>
               (\<exists>st'. lu_reaches ?n (lu_init A) (Suc k) st'
                   \<and> lu_U st' = lu_eliminated ?n k (lu_U st)
                   \<and> (\<forall>i. k < i \<and> i < ?n \<longrightarrow>
                         lu_L st' ! i ! k = lu_U st ! i ! k / lu_U st ! k ! k)))
          \<and> (k = ?n - 1 \<longrightarrow>
               generateLUSteps A =
                 Inr (map (resolve A (lu_U st))
                        (lu_trace ?n (lu_L st) k @
                         [\<lparr>step_id = lu_stepId st, step_description = LUComplete,
                           step_matrix = WorkingU, step_operation = None,
                           step_highlight = None\<rparr>])))"
    if reach: "lu_reaches ?n (lu_init A) k st" for k st
  proof -
    from lu_reaches_invariant [OF reach refl refl n]
    have inv: "length (lu_U st) = ?n" "rect ?n ?n (lu_L st)"
      "lu_steps st = lu_trace ?n (lu_L st) k" "lu_stepId st = length (lu_steps st)"
      by simp_all
    have outer: "lu_outer ?n 0 (lu_init A) = lu_outer ?n k st"
      using reach by (rule lu_reaches_outer)
    have small: "generateLUSteps A =
                 Inr (map (resolve A (lu_U st))
                        (lu_trace ?n (lu_L st) k @
                         [column_step (lu_stepId st) k,
                          \<lparr>step_id = Suc (lu_stepId st), step_description = ErrorZeroPivot,
                           step_matrix = WorkingU, step_operation = None,
                           step_highlight = None\<rparr>]))"
      if "k < ?n - 1" "\<bar>lu_U st ! k ! k\<bar> < tol"
    proof -
      have "lu_outer ?n 0 (lu_init A) =
            Inl (push_step ErrorZeroPivot WorkingU None
               (push_step (WorkingOnColumn (k + 1)) WorkingU
                  (Some \<lparr>hl_row = None, hl_col = Some k, hl_element = None\<rparr>) st))"
        unfolding outer using that by (rule lu_outer_zero_pivot)
      then show ?thesis
        using ne assms(2) [symmetric]
        by (simp add: generateLUSteps_def push_step_def column_step_def inv(3))
    qed
    have big: "\<exists>st'. lu_reaches ?n (lu_init A) (Suc k) st'
                   \<and> lu_U st' = lu_eliminated ?n k (lu_U st)
                   \<and> (\<forall>i. k < i \<and> i < ?n \<longrightarrow>
                         lu_L st' ! i ! k = lu_U st ! i ! k / lu_U st ! k ! k)"
      if k: "k < ?n - 1" and p: "\<not> \<bar>lu_U st ! k ! k\<bar> < tol"
    proof -
      from lu_column_run [OF p k inv] obtain st' where st':
        "lu_inner ?n k (Suc k)
           (push_step (WorkingOnColumn (k + 1)) WorkingU
              (Some \<lparr>hl_row = None, hl_col = Some k, hl_element = None\<rparr>) st) = Inr st'"
        "lu_U st' = lu_eliminated ?n k (lu_U st)"
        "\<forall>i. k < i \<and> i < ?n \<longrightarrow> lu_L st' ! i ! k = lu_U st ! i ! k / lu_U st ! k ! k"
        by blast
      from reach k st'(1) have "lu_reaches ?n (lu_init A) (Suc k) st'"
        by (rule lu_reaches.column)
      with st'(2,3) show ?thesis by blast
    qed
    have complete: "generateLUSteps A =
                 Inr (map (resolve A (lu_U st))
                        (lu_trace ?n (lu_L st) k @
                         [\<lparr>step_id = lu_stepId st, step_description = LUComplete,
                           step_matrix = WorkingU, step_operation = None,
                           step_highlight = None\<rparr>]))"
      if "k = ?n - 1"
    proof -
      have "lu_outer ?n 0 (lu_init A) = Inr st"
        unfolding outer using that by (simp add: lu_outer_done)
      then show ?thesis
        using ne assms(2) [symmetric]
        by (simp add: generateLUSteps_def push_step_def Let_def inv(3))
    qed
    show ?thesis using inv(3,4) small big complete by blast
  qed
  show ?thesis using total ends each by blast
qed

theorem generateLUSteps_zero_pivot_witness:
  "isValidMatrix [[1, 0, 0], [0, 0, 1], [0, 1, 0]]
   \<and> length [[1, 0, 0], [0, 0, 1], [0, 1, 0 :: real]]
       = length ([[1, 0, 0], [0, 0, 1], [0, 1, 0 :: real]] ! 0)
   \<and> lu_reaches 3 (lu_init [[1, 0, 0], [0, 0, 1], [0, 1, 0]]) 1
        \<lparr>lu_L = [[1, 0, 0], [0, 1, 0], [0, 0, 1]], lu_U = [[1, 0, 0], [0, 0, 1], [0, 1, 0]],
         lu_steps = lu_trace 3 [[1, 0, 0], [0, 1, 0], [0, 0, 1]] 1, lu_stepId = 4\<rparr>
   \<and> \<bar>[[1, 0, 0], [0, 0, 1], [0, 1, 0 :: real]] ! 1 ! 1\<bar> < tol
   \<and> generateLUSteps [[1, 0, 0], [0, 0, 1], [0, 1, 0]] =
       Inr [\<lparr>step_id = 0, step_description = InitializeLU,
             step_matrix = [[1, 0, 0], [0, 0, 1], [0, 1, 0]],
             step_operation = None, step_highlight = None\<rparr>,
            \<lparr>step_id = 1, step_description = WorkingOnColumn 1,
             step_matrix = [[1, 0, 0], [0, 0, 1], [0, 1, 0]], step_operation = None,
             step_highlight = Some \<lparr>hl_row = None, hl_col = Some 0, hl_element = None\<rparr>\<rparr>,
            \<lparr>step_id = 2, step_description = EliminateEntry 2 1 0,
             step_matrix = [[1, 0, 0], [0, 0, 1], [0, 1, 0]], step_operation = None,
             step_highlight = Some \<lparr>hl_row = None, hl_col = None, hl_element = Some (1, 0)\<rparr>\<rparr>,
            \<lparr>step_id = 3, step_description = EliminateEntry 3 1 0,
             step_matrix = [[1, 0, 0], [0, 0, 1], [0, 1, 0]], step_operation = None,
             step_highlight = Some \<lparr>hl_row = None, hl_col = None, hl_element = Some (2, 0)\<rparr>\<rparr>,
            \<lparr>step_id = 4, step_description = WorkingOnColumn 2,
             step_matrix = [[1, 0, 0], [0, 0, 1], [0, 1, 0]], step_operation = None,
             step_highlight = Some \<lparr>hl_row = None, hl_col = Some 1, hl_element = None\<rparr>\<rparr>,
            \<lparr>step_id = 5, step_description = ErrorZeroPivot,
             step_matrix = [[1, 0, 0], [0, 0, 1], [0, 1, 0]],
             step_operation = None, step_highlight = None\<rparr>]
   \<and> isValidMatrix [[2, 1], [4, 3]]
   \<and> length [[2, 1], [4, 3 :: real]] = length ([[2, 1], [4, 3 :: real]] ! 0)
   \<and> \<not> \<bar>lu_U (lu_init [[2, 1], [4, 3]]) ! 0 ! 0\<bar> < tol
   \<and> lu_reaches 2 (lu_init [[2, 1], [4, 3]]) 1
        \<lparr>lu_L = [[1, 0], [2, 1]], lu_U = [[2, 1], [0, 1]],
         lu_steps = lu_trace 2 [[1, 0], [2, 1]] 1, lu_stepId = 3\<rparr>
   \<and> generateLUSteps [[2, 1], [4, 3]] =
       Inr [\<lparr>step_id = 0, step_description = InitializeLU, step_matrix = [[2, 1], [4, 3]],
             step_operation = None, step_highlight = None\<rparr>,
            \<lparr>step_id = 1, step_description = WorkingOnColumn 1,
             step_matrix = [[2, 1], [0, 1]], step_operation = None,
             step_highlight = Some \<lparr>hl_row = None, hl_col = Some 0, hl_element = None\<rparr>\<rparr>,
            \<lparr>step_id = 2, step_description = EliminateEntry 2 1 2,
             step_matrix = [[2, 1], [0, 1]], step_operation = None,
             step_highlight = Some \<lparr>hl_row = None, hl_col = None, hl_element = Some (1, 0)\<rparr>\<rparr>,
            \<lparr>step_id = 3, step_description = LUComplete, step_matrix = [[2, 1], [0, 1]],
             step_operation = None, step_highlight = None\<rparr>]"
proof -
  let ?A = "[[1, 0, 0], [0, 0, 1], [0, 1, 0]] :: matrix"
  let ?st = "\<lparr>lu_L = [[1, 0, 0], [0, 1, 0], [0, 0, 1]], lu_U = ?A,
             lu_steps = lu_trace 3 [[1, 0, 0], [0, 1, 0], [0, 0, 1]] 1, lu_stepId = 4\<rparr>"
  have v: "isValidMatrix ?A" and sq: "length ?A = length (?A ! 0)"
    by (simp_all add: isValidMatrix_def)
  have inner: "lu_inner 3 0 (Suc 0)
                 (push_step (WorkingOnColumn (0 + 1)) WorkingU
                    (Some \<lparr>hl_row = None, hl_col = Some 0, hl_element = None\<rparr>) (lu_init ?A))
               = Inr ?st"
    by code_simp
  have reach: "lu_reaches 3 (lu_init ?A) 1 ?st"
    using lu_reaches.column [OF lu_reaches.start _ inner] by simp
  have small: "\<bar>?A ! 1 ! 1\<bar> < tol" by (simp add: tol_def)
  have len: "length ?A = 3" by simp
  have reach': "lu_reaches (length ?A) (lu_init ?A) 1 ?st" unfolding len by (rule reach)
  have c: "1 < length ?A - 1 \<and> \<bar>lu_U ?st ! 1 ! 1\<bar> < tol" using small by simp
  note each = generateLUSteps_zero_pivot [OF v sq, THEN conjunct2, THEN conjunct2,
      rule_format, OF reach']
  from each [THEN conjunct2, THEN conjunct2, THEN conjunct1, rule_format, OF c]
  have "generateLUSteps ?A =
          Inr (map (resolve ?A (lu_U ?st))
                 (lu_trace (length ?A) (lu_L ?st) 1 @
                  [column_step (lu_stepId ?st) 1,
                   \<lparr>step_id = Suc (lu_stepId ?st), step_description = ErrorZeroPivot,
                    step_matrix = WorkingU, step_operation = None, step_highlight = None\<rparr>]))" .
  then have first: "generateLUSteps ?A =
       Inr [\<lparr>step_id = 0, step_description = InitializeLU, step_matrix = ?A,
             step_operation = None, step_highlight = None\<rparr>,
            \<lparr>step_id = 1, step_description = WorkingOnColumn 1,
             step_matrix = ?A, step_operation = None,
             step_highlight = Some \<lparr>hl_row = None, hl_col = Some 0, hl_element = None\<rparr>\<rparr>,
            \<lparr>step_id = 2, step_description = EliminateEntry 2 1 0,
             step_matrix = ?A, step_operation = None,
             step_highlight = Some \<lparr>hl_row = None, hl_col = None, hl_element = Some (1, 0)\<rparr>\<rparr>,
            \<lparr>step_id = 3, step_description = EliminateEntry 3 1 0,
             step_matrix = ?A, step_operation = None,
             step_highlight = Some \<lparr>hl_row = None, hl_col = None, hl_element = Some (2, 0)\<rparr>\<rparr>,
            \<lparr>step_id = 4, step_description = WorkingOnColumn 2,
             step_matrix = ?A, step_operation = None,
             step_highlight = Some \<lparr>hl_row = None, hl_col = Some 1, hl_element = None\<rparr>\<rparr>,
            \<lparr>step_id = 5, step_description = ErrorZeroPivot, step_matrix = ?A,
             step_operation = None, step_highlight = None\<rparr>]"
    by (simp add: resolve_def column_step_def eliminate_step_def Let_def
        upt_conv_Cons del: upt_Suc)
  let ?B = "[[2, 1], [4, 3]] :: matrix"
  let ?sb = "\<lparr>lu_L = [[1, 0], [2, 1]], lu_U = [[2, 1], [0, 1]],
             lu_steps = lu_trace 2 [[1, 0], [2, 1]] 1, lu_stepId = 3\<rparr>"
  have vb: "isValidMatrix ?B" and sqb: "length ?B = length (?B ! 0)"
    by (simp_all add: isValidMatrix_def)
  have pb: "\<not> \<bar>lu_U (lu_init ?B) ! 0 ! 0\<bar> < tol"
    by (simp add: lu_init_def push_step_def tol_def)
  have innerb: "lu_inner 2 0 (Suc 0)
                 (push_step (WorkingOnColumn (0 + 1)) WorkingU
                    (Some \<lparr>hl_row = None, hl_col = Some 0, hl_element = None\<rparr>) (lu_init ?B))
               = Inr ?sb"
    by code_simp
  have reachb: "lu_reaches 2 (lu_init ?B) 1 ?sb"
    using lu_reaches.column [OF lu_reaches.start _ innerb] by simp
  have lenb: "length ?B = 2" by simp
  have reachb': "lu_reaches (length ?B) (lu_init ?B) 1 ?sb" unfolding lenb by (rule reachb)
  have lastb: "1 = length ?B - 1" by simp
  note eachb = generateLUSteps_zero_pivot [OF vb sqb, THEN conjunct2, THEN conjunct2,
      rule_format, OF reachb']
  from eachb [THEN conjunct2, THEN conjunct2, THEN conjunct2, THEN conjunct2, rule_format,
      OF lastb]
  have "generateLUSteps ?B =
          Inr (map (resolve ?B (lu_U ?sb))
                 (lu_trace (length ?B) (lu_L ?sb) 1 @
                  [\<lparr>step_id = lu_stepId ?sb, step_description = LUComplete,
                    step_matrix = WorkingU, step_operation = None, step_highlight = None\<rparr>]))" .
  then have second: "generateLUSteps ?B =
       Inr [\<lparr>step_id = 0, step_description = InitializeLU, step_matrix = ?B,
             step_operation = None, step_highlight = None\<rparr>,
            \<lparr>step_id = 1, step_description = WorkingOnColumn 1,
             step_matrix = [[2, 1], [0, 1]], step_operation = None,
             step_highlight = Some \<lparr>hl_row = None, hl_col = Some 0, hl_element = None\<rparr>\<rparr>,
            \<lparr>step_id = 2, step_description = EliminateEntry 2 1 2,
             step_matrix = [[2, 1], [0, 1]], step_operation = None,
             step_highlight = Some \<lparr>hl_row = None, hl_col = None, hl_element = Some (1, 0)\<rparr>\<rparr>,
            \<lparr>step_id = 3, step_description = LUComplete, step_matrix = [[2, 1], [0, 1]],
             step_operation = None, step_highlight = None\<rparr>]"
    by (simp add: resolve_def column_step_def eliminate_step_def Let_def
        upt_conv_Cons del: upt_Suc)
  show ?thesis
    using v sq reach small first vb sqb pb reachb second by (intro conjI)
qed

end
